theory Spec2Isabelle
  imports Complex_Main
begin

section \<open>Exceptions and the exception monad\<close>

text \<open>
  The Python exceptions that the modelled code can raise. A function that can raise
  returns \<open>error + 'a\<close>, with \<open>Inl\<close> for the raised exception.
\<close>

datatype error =
    TypeError
  | ValueError
  | IndexError
  | KeyError
  | AttributeError
  | ZeroDivisionError

definition bindE :: "error + 'a \<Rightarrow> ('a \<Rightarrow> error + 'b) \<Rightarrow> error + 'b" where
  "bindE r f = (case r of Inl e \<Rightarrow> Inl e | Inr x \<Rightarrow> f x)"

lemma bindE_simps [simp]:
  "bindE (Inl e) f = Inl e"
  "bindE (Inr x) f = f x"
  by (simp_all add: bindE_def)

lemma bindE_cong [fundef_cong]:
  "r = r' \<Longrightarrow> (\<And>x. r' = Inr x \<Longrightarrow> f x = f' x) \<Longrightarrow> bindE r f = bindE r' f'"
  by (auto simp: bindE_def split: sum.splits)

section \<open>Array (array.py)\<close>

text \<open>
  \<^verbatim>\<open>Array\<close> wraps a numpy object array \<^verbatim>\<open>_items\<close> and keeps a physical and a
  logical size beside it. The numpy array is a list; \<^verbatim>\<open>[v] * size\<close> with a negative
  \<^verbatim>\<open>size\<close> is the empty list, which \<open>replicate (nat size)\<close> gives as well.
\<close>

record 'a Array =
  items :: "'a list"
  physical_size :: int
  logical_size :: int
  default_item_value :: 'a

definition Array_init :: "int \<Rightarrow> 'a \<Rightarrow> 'a Array" where
  "Array_init sz dv =
     \<lparr>items = replicate (nat sz) dv, physical_size = sz, logical_size = sz,
      default_item_value = dv\<rparr>"

text \<open>Reading and writing a numpy array at a non-negative index: out of range raises.\<close>

definition np_get :: "'a list \<Rightarrow> nat \<Rightarrow> error + 'a" where
  "np_get xs i = (if i < length xs then Inr (xs ! i) else Inl IndexError)"

definition np_set :: "'a list \<Rightarrow> nat \<Rightarrow> 'a \<Rightarrow> error + 'a list" where
  "np_set xs i v = (if i < length xs then Inr (xs[i := v]) else Inl IndexError)"

definition Array_getitem :: "'a Array \<Rightarrow> int \<Rightarrow> error + 'a" where
  "Array_getitem a index =
     (if index < 0 \<or> index \<ge> int (length (items a)) then Inl IndexError
      else Inr (items a ! nat index))"

definition Array_setitem :: "'a Array \<Rightarrow> int \<Rightarrow> 'a \<Rightarrow> error + 'a Array" where
  "Array_setitem a index data =
     (if index < 0 \<or> index \<ge> int (length (items a)) then Inl IndexError
      else Inr (a\<lparr>items := (items a)[nat index := data]\<rparr>))"

text \<open>The copying loop of \<^verbatim>\<open>append\<close>: \<^verbatim>\<open>for i in range(len(self._items)): new_array[i] = self._items[i]\<close>.\<close>

fun copy_items :: "'a list \<Rightarrow> nat list \<Rightarrow> 'a list \<Rightarrow> error + 'a list" where
  "copy_items old [] new_array = Inr new_array"
| "copy_items old (i # is) new_array =
     bindE (np_get old i) (\<lambda>x. bindE (np_set new_array i x) (copy_items old is))"

definition Array_append :: "'a Array \<Rightarrow> 'a \<Rightarrow> error + 'a Array" where
  "Array_append a data =
     (let new_physical_size =
            (if logical_size a = physical_size a then physical_size a * 2 else physical_size a);
          new_array = replicate (nat new_physical_size) (default_item_value a)
      in bindE (copy_items (items a) [0..<length (items a)] new_array) (\<lambda>new_array.
         bindE (np_set new_array (length (items a)) data) (\<lambda>new_array.
           Inr (a\<lparr>items := new_array, physical_size := new_physical_size,
                  logical_size := logical_size a + 1\<rparr>))))"

text \<open>\<^verbatim>\<open>len(array)\<close>: Python raises ValueError when \<^verbatim>\<open>__len__\<close> returns a negative number.\<close>

definition Array_len :: "'a Array \<Rightarrow> error + int" where
  "Array_len a = (if logical_size a < 0 then Inl ValueError else Inr (logical_size a))"

definition Array_delitem :: "'a Array \<Rightarrow> int \<Rightarrow> error + 'a Array" where
  "Array_delitem a index =
     bindE (Array_len a) (\<lambda>n.
       if \<not> (0 \<le> index \<and> index < n) then Inl IndexError
       else if nat index < length (items a)
         then Inr (a\<lparr>items := take (nat index) (items a) @ drop (Suc (nat index)) (items a),
                     logical_size := logical_size a - 1\<rparr>)
         else Inl IndexError)"

text \<open>Iterating an Array iterates the numpy array, whatever the logical size says.\<close>

definition Array_iter :: "'a Array \<Rightarrow> 'a list" where
  "Array_iter a = items a"

section \<open>LinkedList\<close>

text \<open>
  Modelled from the spec: the module \<^verbatim>\<open>datastructures.linked_list\<close> is imported by the
  sources but is not among them. The spec (section 6) describes it as an ordered sequence
  container with append, remove-by-value (fails if absent), iteration, length and clear.
  A LinkedList is the list of its items, front first; \<^verbatim>\<open>extract\<close> is the
  remove-by-value, and removes the first item equal to its argument.
\<close>

type_synonym 'a LinkedList = "'a list"

definition LinkedList_append :: "'a LinkedList \<Rightarrow> 'a \<Rightarrow> 'a LinkedList" where
  "LinkedList_append xs x = xs @ [x]"

definition LinkedList_extract :: "'a LinkedList \<Rightarrow> 'a \<Rightarrow> error + 'a LinkedList" where
  "LinkedList_extract xs x = (if x \<in> set xs then Inr (remove1 x xs) else Inl ValueError)"

section \<open>Primes (sympy.nextprime)\<close>

definition is_prime :: "nat \<Rightarrow> bool" where
  "is_prime p = (1 < p \<and> list_all (\<lambda>d. \<not> d dvd p) [2..<p])"

lemma is_prime_iff: "is_prime p \<longleftrightarrow> 1 < p \<and> (\<forall>d. 2 \<le> d \<and> d < p \<longrightarrow> \<not> d dvd p)"
  by (auto simp: is_prime_def list_all_iff)

lemma prime_divisor_exists: "1 < n \<Longrightarrow> \<exists>p. is_prime p \<and> p dvd n"
proof (induction n rule: less_induct)
  case (less n)
  show ?case
  proof (cases "is_prime n")
    case True
    then show ?thesis by auto
  next
    case False
    with less.prems obtain d where d: "2 \<le> d" "d < n" "d dvd n"
      by (auto simp: is_prime_iff)
    with less.IH [of d] obtain p where "is_prime p" "p dvd d" by auto
    with d show ?thesis using dvd_trans by blast
  qed
qed

lemma prime_above: "\<exists>p. is_prime p \<and> n \<le> p"
proof -
  have "1 < fact n + (1::nat)" by (simp add: fact_gt_zero)
  then obtain p where p: "is_prime p" "p dvd fact n + 1"
    using prime_divisor_exists by blast
  have "n < p"
  proof (rule ccontr)
    assume "\<not> n < p"
    then have "p \<le> n" by simp
    moreover from p have "1 \<le> p" by (simp add: is_prime_iff)
    ultimately have "p dvd fact n" by (simp add: dvd_fact)
    with p(2) have "p dvd (fact n + 1) - fact n" by (rule dvd_diff_nat)
    then have "p dvd 1" by simp
    with p(1) show False by (simp add: is_prime_iff)
  qed
  with p(1) show ?thesis by (auto intro: less_imp_le)
qed

text \<open>
  The upward search for a prime. It ends because there is a prime above every number
  (\<open>prime_above\<close>).
\<close>

function first_prime_from :: "nat \<Rightarrow> nat" where
  "first_prime_from k = (if is_prime k then k else first_prime_from (Suc k))"
  by pat_completeness auto
termination
proof (relation "measure (\<lambda>k. (LEAST p. is_prime p \<and> k \<le> p) - k)")
  show "wf (measure (\<lambda>k. (LEAST p. is_prime p \<and> k \<le> p) - k))" by simp
next
  fix k assume np: "\<not> is_prime k"
  obtain q where q: "is_prime q \<and> Suc k \<le> q" using prime_above by blast
  define L where "L = (LEAST p. is_prime p \<and> Suc k \<le> p)"
  have L: "is_prime L \<and> Suc k \<le> L" unfolding L_def using q by (rule LeastI)
  have eq: "(LEAST p. is_prime p \<and> k \<le> p) = L"
  proof (rule Least_equality)
    show "is_prime L \<and> k \<le> L" using L by simp
  next
    fix y assume y: "is_prime y \<and> k \<le> y"
    with np have "Suc k \<le> y" by (cases "y = k") auto
    with y show "L \<le> y" unfolding L_def by (simp add: Least_le)
  qed
  have "L - Suc k < L - k" using L by arith
  then show "(Suc k, k) \<in> measure (\<lambda>k. (LEAST p. is_prime p \<and> k \<le> p) - k)"
    using eq by (simp add: L_def)
qed

declare first_prime_from.simps [simp del]

text \<open>
  \<^verbatim>\<open>sympy.nextprime(n)\<close> is a library function, not code of the repository. Its
  documentation reads "Return the ith prime greater than n", with \<^verbatim>\<open>i = 1\<close> by
  default: \<^verbatim>\<open>nextprime(10) = 11\<close>, \<^verbatim>\<open>nextprime(11) = 13\<close>,
  \<^verbatim>\<open>nextprime(13) = 17\<close>. So it is the smallest prime strictly above \<open>n\<close>.
\<close>

definition nextprime :: "int \<Rightarrow> int" where
  "nextprime n = int (first_prime_from (nat (n + 1)))"

section \<open>HashMap (hash_map.py)\<close>

type_synonym ('k, 'v) Pair = "'k \<times> 'v"

datatype hashed = Scalar int | Elements "int list"

definition default_hash_function :: "('k \<Rightarrow> hashed) \<Rightarrow> 'k \<Rightarrow> int \<Rightarrow> error + int" where
  "default_hash_function builtin_hash key cap =
     (if cap = 0 then Inl ZeroDivisionError
      else case builtin_hash key of
             Elements hs \<Rightarrow> Inr (sum_list hs mod cap)
           | Scalar h \<Rightarrow> Inr (h mod cap))"

definition default_load_factor_threshold :: real where
  "default_load_factor_threshold = 0.6"

record ('k, 'v) HashMap =
  buckets :: "('k, 'v) Pair LinkedList option Array"
  hash_function :: "'k \<Rightarrow> int \<Rightarrow> error + int"
  load_factor_threshold :: real
  count :: int

fun fill_buckets :: "'a LinkedList option Array \<Rightarrow> nat list \<Rightarrow> error + 'a LinkedList option Array" where
  "fill_buckets b [] = Inr b"
| "fill_buckets b (i # is) = bindE (Array_setitem b (int i) (Some [])) (\<lambda>b. fill_buckets b is)"

definition HashMap_init ::
  "int \<Rightarrow> ('k \<Rightarrow> int \<Rightarrow> error + int) option \<Rightarrow> real \<Rightarrow> error + ('k, 'v) HashMap" where
  "HashMap_init cap hf thr =
     (case hf of
        None \<Rightarrow> Inl TypeError
      | Some h \<Rightarrow>
          bindE (fill_buckets (Array_init cap None) [0..<nat cap]) (\<lambda>b.
            Inr \<lparr>buckets = b, hash_function = h,
                 load_factor_threshold = default_load_factor_threshold, count = 0\<rparr>))"

definition capacity :: "('k, 'v) HashMap \<Rightarrow> error + int" where
  "capacity m = Array_len (buckets m)"

definition load_factor :: "('k, 'v) HashMap \<Rightarrow> error + real" where
  "load_factor m =
     bindE (capacity m) (\<lambda>c.
       if c = 0 then Inl ZeroDivisionError else Inr (real_of_int (count m) / real_of_int c))"

definition py_int :: "real \<Rightarrow> int" where
  "py_int x = (if 0 \<le> x then \<lfloor>x\<rfloor> else \<lceil>x\<rceil>)"

definition new_bucket_capacity :: "('k, 'v) HashMap \<Rightarrow> error + int" where
  "new_bucket_capacity m =
     (if load_factor_threshold m = 0 then Inl ZeroDivisionError
      else Inr (nextprime (py_int (real_of_int (count m) / load_factor_threshold m))))"

definition iter_bucket :: "'a LinkedList option \<Rightarrow> error + 'a list" where
  "iter_bucket b = (case b of None \<Rightarrow> Inl TypeError | Some xs \<Rightarrow> Inr xs)"

definition bucket_of :: "('k, 'v) HashMap \<Rightarrow> 'k \<Rightarrow> error + int \<times> ('k, 'v) Pair list" where
  "bucket_of m key =
     bindE (capacity m) (\<lambda>c.
     bindE (hash_function m key c) (\<lambda>bucket_number.
     bindE (Array_getitem (buckets m) bucket_number) (\<lambda>bucket.
     bindE (iter_bucket bucket) (\<lambda>chain. Inr (bucket_number, chain)))))"

definition set_chain :: "('k, 'v) HashMap \<Rightarrow> int \<Rightarrow> ('k, 'v) Pair LinkedList \<Rightarrow> ('k, 'v) HashMap" where
  "set_chain m bucket_number chain =
     m\<lparr>buckets := (buckets m)\<lparr>items := (items (buckets m))[nat bucket_number := Some chain]\<rparr>\<rparr>"

definition HashMap_getitem :: "('k, 'v) HashMap \<Rightarrow> 'k \<Rightarrow> error + 'v" where
  "HashMap_getitem m key =
     bindE (bucket_of m key) (\<lambda>(bucket_number, chain).
       case find (\<lambda>pair. fst pair = key) chain of
         Some pair \<Rightarrow> Inr (snd pair)
       | None \<Rightarrow> Inl KeyError)"

definition insert_pair :: "('k, 'v) HashMap \<Rightarrow> 'k \<Rightarrow> 'v \<Rightarrow> error + ('k, 'v) HashMap" where
  "insert_pair m key val =
     bindE (bucket_of m key) (\<lambda>(bucket_number, chain).
       case find (\<lambda>pair. fst pair = key) chain of
         Some pair \<Rightarrow>
           bindE (LinkedList_extract chain pair) (\<lambda>chain.
             Inr (set_chain m bucket_number (LinkedList_append chain (key, val))))
       | None \<Rightarrow>
           Inr ((set_chain m bucket_number (LinkedList_append chain (key, val)))
                  \<lparr>count := count m + 1\<rparr>))"

fun chains :: "'a LinkedList option list \<Rightarrow> error + 'a list" where
  "chains [] = Inr []"
| "chains (b # bs) =
     bindE (iter_bucket b) (\<lambda>xs. bindE (chains bs) (\<lambda>ys. Inr (xs @ ys)))"

definition HashMap_items :: "('k, 'v) HashMap \<Rightarrow> error + ('k \<times> 'v) list" where
  "HashMap_items m = chains (Array_iter (buckets m))"

definition n_pairs :: "('k, 'v) HashMap \<Rightarrow> nat" where
  "n_pairs m = sum_list (map (\<lambda>b. case b of None \<Rightarrow> 0 | Some xs \<Rightarrow> length xs) (items (buckets m)))"

lemma sum_list_update_nat:
  "k < length xs \<Longrightarrow> sum_list (xs[k := x]) + xs ! k = sum_list xs + (x::nat)"
  by (induction xs arbitrary: k) (auto split: nat.splits)

lemma n_pairs_set_chain:
  assumes "nat i < length (items (buckets m))" "items (buckets m) ! nat i = Some chain"
  shows "n_pairs (set_chain m i chain') + length chain = n_pairs m + length chain'"
  using assms
    sum_list_update_nat [of "nat i" "map (\<lambda>b. case b of None \<Rightarrow> 0 | Some xs \<Rightarrow> length xs) (items (buckets m))" "length chain'"]
  by (simp add: n_pairs_def set_chain_def map_update)

lemma bucket_of_D:
  assumes "bucket_of m key = Inr (i, chain)"
  shows "0 \<le> i \<and> nat i < length (items (buckets m)) \<and> items (buckets m) ! nat i = Some chain"
  using assms
  by (auto simp: bucket_of_def bindE_def Array_getitem_def iter_bucket_def
           split: sum.splits if_splits option.splits)

lemma n_pairs_insert_pair:
  assumes "insert_pair m key val = Inr m'"
  shows "n_pairs m' \<le> n_pairs m + 1"
proof -
  from assms obtain i chain where b: "bucket_of m key = Inr (i, chain)"
    by (auto simp: insert_pair_def bindE_def split: sum.splits)
  note D = bucket_of_D [OF b]
  show ?thesis
  proof (cases "find (\<lambda>pair. fst pair = key) chain")
    case None
    with assms b have "m' = (set_chain m i (LinkedList_append chain (key, val)))\<lparr>count := count m + 1\<rparr>"
      by (simp add: insert_pair_def)
    then have "n_pairs m' = n_pairs (set_chain m i (chain @ [(key, val)]))"
      by (simp add: n_pairs_def LinkedList_append_def set_chain_def)
    with n_pairs_set_chain [of i m chain "chain @ [(key, val)]"] D show ?thesis by simp
  next
    case (Some pair)
    with assms b obtain chain' where c: "LinkedList_extract chain pair = Inr chain'"
      and m': "m' = set_chain m i (LinkedList_append chain' (key, val))"
      by (auto simp: insert_pair_def bindE_def split: sum.splits)
    from c have "length chain' < length chain \<or> length chain' = length chain - 1"
      by (auto simp: LinkedList_extract_def length_remove1 split: if_splits)
    then have "length chain' + 1 \<le> length chain + 1" by arith
    with n_pairs_set_chain [of i m chain "chain' @ [(key, val)]"] D m' show ?thesis
      by (simp add: LinkedList_append_def)
  qed
qed

lemma fill_buckets_items:
  "fill_buckets b is = Inr b' \<Longrightarrow> set (items b) \<subseteq> {None, Some []} \<Longrightarrow> set (items b') \<subseteq> {None, Some []}"
proof (induction "is" arbitrary: b)
  case Nil then show ?case by simp
next
  case (Cons i "is")
  from Cons.prems(1) obtain b1 where b1: "Array_setitem b (int i) (Some []) = Inr b1"
    and r: "fill_buckets b1 is = Inr b'"
    by (auto simp: bindE_def split: sum.splits)
  from b1 Cons.prems(2) have "set (items b1) \<subseteq> {None, Some []}"
    by (auto simp: Array_setitem_def split: if_splits dest!: set_update_subset_insert [THEN subsetD])
  with Cons.IH r show ?case by blast
qed

lemma n_pairs_HashMap_init:
  assumes "HashMap_init n hf t = Inr m"
  shows "n_pairs (m :: ('k, 'v) HashMap) = 0"
proof -
  from assms obtain h b where f: "fill_buckets (Array_init n None) [0..<nat n] = Inr b"
    and m: "m = \<lparr>buckets = b, hash_function = h,
                 load_factor_threshold = default_load_factor_threshold, count = 0\<rparr>"
    by (auto simp: HashMap_init_def bindE_def split: option.splits sum.splits)
  from f have "set (items b) \<subseteq> {None, Some ([] :: ('k \<times> 'v) list)}"
    by (rule fill_buckets_items) (auto simp: Array_init_def)
  then have "\<forall>x \<in> set (items b). (case x of None \<Rightarrow> 0 | Some xs \<Rightarrow> length xs) = (0::nat)"
    by auto
  then show ?thesis by (simp add: n_pairs_def m)
qed

lemma length_chains:
  "chains bs = Inr kvs \<Longrightarrow>
   length kvs = sum_list (map (\<lambda>b. case b of None \<Rightarrow> 0 | Some xs \<Rightarrow> length xs) bs)"
  by (induction bs arbitrary: kvs)
     (auto simp: bindE_def iter_bucket_def split: sum.splits option.splits)

lemma length_HashMap_items: "HashMap_items m = Inr kvs \<Longrightarrow> length kvs = n_pairs m"
  by (simp add: HashMap_items_def Array_iter_def n_pairs_def length_chains)


function HashMap_setitem :: "('k, 'v) HashMap \<Rightarrow> 'k \<Rightarrow> 'v \<Rightarrow> error + ('k, 'v) HashMap"
  and resize_and_rehash ::
    "('k, 'v) HashMap \<Rightarrow> int \<Rightarrow> ('k \<Rightarrow> int \<Rightarrow> error + int) \<Rightarrow> error + ('k, 'v) HashMap"
  and rehash_items :: "('k \<times> 'v) list \<Rightarrow> ('k, 'v) HashMap \<Rightarrow> error + ('k, 'v) HashMap"
where
  "HashMap_setitem m key val =
     bindE (load_factor m) (\<lambda>lf.
     bindE (if lf > load_factor_threshold m
            then bindE (new_bucket_capacity m) (\<lambda>n. resize_and_rehash m n (hash_function m))
            else Inr m) (\<lambda>m. insert_pair m key val))"
| "resize_and_rehash m new_table_size new_hash_function =
     bindE (HashMap_init new_table_size (Some new_hash_function) default_load_factor_threshold)
       (\<lambda>new_hash_map.
     bindE (HashMap_items m) (\<lambda>kvs. rehash_items kvs new_hash_map))"
| "rehash_items [] new_hash_map = Inr new_hash_map"
| "rehash_items ((key, val) # kvs) new_hash_map =
     bindE (HashMap_setitem new_hash_map key val) (rehash_items kvs)"
  by pat_completeness auto


lemma n_pairs_setitem_partial:
  "HashMap_setitem_resize_and_rehash_rehash_items_dom (Inl (m :: ('k, 'v) HashMap, key, val)) \<Longrightarrow>
     (\<forall>m'. HashMap_setitem m key val = Inr m' \<longrightarrow> n_pairs m' \<le> n_pairs m + 1)"
  "HashMap_setitem_resize_and_rehash_rehash_items_dom (Inr (Inl (m2 :: ('k, 'v) HashMap, n, h))) \<Longrightarrow>
     (\<forall>m'. resize_and_rehash m2 n h = Inr m' \<longrightarrow> n_pairs m' \<le> n_pairs m2)"
  "HashMap_setitem_resize_and_rehash_rehash_items_dom (Inr (Inr (kvs, nm :: ('k, 'v) HashMap))) \<Longrightarrow>
     (\<forall>m'. rehash_items kvs nm = Inr m' \<longrightarrow> n_pairs m' \<le> n_pairs nm + length kvs)"
proof (induction m key val and m2 n h and kvs nm
       rule: HashMap_setitem_resize_and_rehash_rehash_items.pinduct)
  case (1 m key val)
  show ?case
  proof (intro allI impI)
    fix m' assume a: "HashMap_setitem m key val = Inr m'"
    from a 1(1) obtain lf m1 where lf: "load_factor m = Inr lf"
      and m1: "(if lf > load_factor_threshold m
            then bindE (new_bucket_capacity m) (\<lambda>n. resize_and_rehash m n (hash_function m))
            else Inr m) = Inr m1"
      and ins: "insert_pair m1 key val = Inr m'"
      by (auto simp: HashMap_setitem.psimps bindE_def split: sum.splits)
    have "n_pairs m1 \<le> n_pairs m"
    proof (cases "lf > load_factor_threshold m")
      case True
      with m1 obtain n where n: "new_bucket_capacity m = Inr n"
        and r: "resize_and_rehash m n (hash_function m) = Inr m1"
        by (auto simp: bindE_def split: sum.splits)
      from 1(2) [OF lf True n] r show ?thesis by blast
    next
      case False
      with m1 show ?thesis by simp
    qed
    with n_pairs_insert_pair [OF ins] show "n_pairs m' \<le> n_pairs m + 1" by simp
  qed
next
  case (2 m n h)
  show ?case
  proof (intro allI impI)
    fix m' assume a: "resize_and_rehash m n h = Inr m'"
    from a 2(1) obtain nm kvs where nm: "HashMap_init n (Some h) default_load_factor_threshold = Inr nm"
      and kvs: "HashMap_items m = Inr kvs" and r: "rehash_items kvs nm = Inr m'"
      by (auto simp: resize_and_rehash.psimps bindE_def split: sum.splits)
    from 2(2) [OF nm kvs] r have "n_pairs m' \<le> n_pairs nm + length kvs" by blast
    with n_pairs_HashMap_init [OF nm] length_HashMap_items [OF kvs]
    show "n_pairs m' \<le> n_pairs m" by simp
  qed
next
  case (3 nm)
  then show ?case by (simp add: rehash_items.psimps)
next
  case (4 key val kvs nm)
  show ?case
  proof (intro allI impI)
    fix m' assume a: "rehash_items ((key, val) # kvs) nm = Inr m'"
    from a 4(1) obtain nm1 where s: "HashMap_setitem nm key val = Inr nm1"
      and r: "rehash_items kvs nm1 = Inr m'"
      by (auto simp: rehash_items.psimps bindE_def split: sum.splits)
    from 4(2) s have "n_pairs nm1 \<le> n_pairs nm + 1" by blast
    moreover from 4(3) [OF s] r have "n_pairs m' \<le> n_pairs nm1 + length kvs" by blast
    ultimately show "n_pairs m' \<le> n_pairs nm + length ((key, val) # kvs)" by simp
  qed
qed

termination HashMap_setitem
  apply (relation "inv_image (less_than <*lex*> less_than <*lex*> less_than)
     (\<lambda>x. case x of
        Inl (m, k, v) \<Rightarrow> (n_pairs m, 2::nat, 0::nat)
      | Inr (Inl (m, n, h)) \<Rightarrow> (n_pairs m, 1, 0)
      | Inr (Inr (kvs, nm)) \<Rightarrow> (n_pairs nm + length kvs, 0, length kvs))")
  subgoal by auto
  subgoal by simp
  subgoal by (simp add: n_pairs_HashMap_init length_HashMap_items)
  subgoal by simp
  subgoal for key val kvs new_hash_map x
    using n_pairs_setitem_partial(1) [of new_hash_map key val] by auto
  done

declare HashMap_setitem.simps [simp del] resize_and_rehash.simps [simp del]

definition HashMap_delitem :: "('k, 'v) HashMap \<Rightarrow> 'k \<Rightarrow> error + ('k, 'v) HashMap" where
  "HashMap_delitem m key =
     bindE (bucket_of m key) (\<lambda>(bucket_number, chain).
       case find (\<lambda>pair. fst pair = key) chain of
         Some pair \<Rightarrow>
           bindE (LinkedList_extract chain pair) (\<lambda>chain.
             Inr (set_chain m bucket_number chain))
       | None \<Rightarrow> Inl KeyError)"

definition HashMap_contains :: "('k, 'v) HashMap \<Rightarrow> 'k \<Rightarrow> error + bool" where
  "HashMap_contains m key =
     bindE (bucket_of m key) (\<lambda>(bucket_number, chain).
       Inr (find (\<lambda>pair. fst pair = key) chain \<noteq> None))"

definition HashMap_len :: "('k, 'v) HashMap \<Rightarrow> error + int" where
  "HashMap_len m = (if count m < 0 then Inl ValueError else Inr (count m))"

definition HashMap_keys :: "('k, 'v) HashMap \<Rightarrow> error + 'k list" where
  "HashMap_keys m = bindE (HashMap_items m) (\<lambda>kvs. Inr (map fst kvs))"

definition HashMap_values :: "('k, 'v) HashMap \<Rightarrow> error + 'v list" where
  "HashMap_values m = bindE (HashMap_items m) (\<lambda>kvs. Inr (map snd kvs))"


subsection \<open>The invariant of a HashMap and the dictionary it stands for\<close>

text \<open>
  A hash function is usable when, for every positive capacity, it returns a bucket number
  below the capacity. The default hash function is, whatever Python's builtin hash returns.
\<close>

definition hash_ok :: "('k \<Rightarrow> int \<Rightarrow> error + int) \<Rightarrow> bool" where
  "hash_ok h = (\<forall>k c. 0 < c \<longrightarrow> (\<exists>i. h k c = Inr i \<and> 0 \<le> i \<and> i < c))"

definition n_buckets :: "('k, 'v) HashMap \<Rightarrow> nat" where
  "n_buckets m = length (items (buckets m))"

definition chain_at :: "('k, 'v) HashMap \<Rightarrow> nat \<Rightarrow> ('k, 'v) Pair list" where
  "chain_at m i = (case items (buckets m) ! i of Some chain \<Rightarrow> chain | None \<Rightarrow> [])"

definition slot :: "('k, 'v) HashMap \<Rightarrow> 'k \<Rightarrow> nat" where
  "slot m k = (case hash_function m k (int (n_buckets m)) of Inr i \<Rightarrow> nat i | Inl e \<Rightarrow> 0)"

text \<open>
  The invariant: there is at least one bucket, every bucket holds a chain, the keys of a
  chain are distinct and hash to the chain's bucket, the threshold is the class default,
  and the count is at least the number of stored pairs.
\<close>

definition hm_inv :: "('k, 'v) HashMap \<Rightarrow> bool" where
  "hm_inv m \<longleftrightarrow>
     0 < n_buckets m \<and> logical_size (buckets m) = int (n_buckets m) \<and>
     hash_ok (hash_function m) \<and>
     load_factor_threshold m = default_load_factor_threshold \<and>
     (\<forall>i < n_buckets m. \<exists>chain. items (buckets m) ! i = Some chain \<and>
         distinct (map fst chain) \<and> (\<forall>p \<in> set chain. slot m (fst p) = i)) \<and>
     int (n_pairs m) \<le> count m"

text \<open>The dictionary a HashMap stands for: the value stored under a key, if any.\<close>

definition hm_lookup :: "('k, 'v) HashMap \<Rightarrow> 'k \<Rightarrow> 'v option" where
  "hm_lookup m k = map_of (chain_at m (slot m k)) k"

text \<open>All stored pairs, bucket by bucket.\<close>

definition the_items :: "('k, 'v) HashMap \<Rightarrow> ('k \<times> 'v) list" where
  "the_items m = concat (map (\<lambda>b. case b of None \<Rightarrow> [] | Some chain \<Rightarrow> chain) (items (buckets m)))"

subsection \<open>What the operations return on a HashMap that satisfies the invariant\<close>

definition put_chain :: "('k \<times> 'v) list \<Rightarrow> 'k \<Rightarrow> 'v \<Rightarrow> ('k \<times> 'v) list" where
  "put_chain chain k v =
     (case map_of chain k of
        Some w \<Rightarrow> remove1 (k, w) chain @ [(k, v)]
      | None \<Rightarrow> chain @ [(k, v)])"

definition insert_result :: "('k, 'v) HashMap \<Rightarrow> 'k \<Rightarrow> 'v \<Rightarrow> ('k, 'v) HashMap" where
  "insert_result m k v =
     (set_chain m (int (slot m k)) (put_chain (chain_at m (slot m k)) k v))
       \<lparr>count := count m + (if hm_lookup m k = None then 1 else 0)\<rparr>"

definition delete_result :: "('k, 'v) HashMap \<Rightarrow> 'k \<Rightarrow> ('k, 'v) HashMap" where
  "delete_result m k =
     set_chain m (int (slot m k))
       (case hm_lookup m k of
          Some w \<Rightarrow> remove1 (k, w) (chain_at m (slot m k))
        | None \<Rightarrow> chain_at m (slot m k))"

definition empty_map :: "int \<Rightarrow> ('k \<Rightarrow> int \<Rightarrow> error + int) \<Rightarrow> ('k, 'v) HashMap" where
  "empty_map c h =
     \<lparr>buckets = \<lparr>items = replicate (nat c) (Some []), physical_size = c, logical_size = c,
                 default_item_value = None\<rparr>,
      hash_function = h, load_factor_threshold = default_load_factor_threshold, count = 0\<rparr>"

definition needs_resize :: "('k, 'v) HashMap \<Rightarrow> bool" where
  "needs_resize m \<longleftrightarrow>
     real_of_int (count m) / real (n_buckets m) > load_factor_threshold m"

fun insert_all :: "('k \<times> 'v) list \<Rightarrow> ('k, 'v) HashMap \<Rightarrow> ('k, 'v) HashMap" where
  "insert_all [] m = m"
| "insert_all ((k, v) # kvs) m = insert_all kvs (insert_result m k v)"

definition resized :: "('k, 'v) HashMap \<Rightarrow> int \<Rightarrow> ('k, 'v) HashMap" where
  "resized m p = insert_all (the_items m) (empty_map p (hash_function m))"

definition new_cap :: "('k, 'v) HashMap \<Rightarrow> int" where
  "new_cap m = nextprime \<lfloor>real_of_int (count m) / default_load_factor_threshold\<rfloor>"

definition after_resize :: "('k, 'v) HashMap \<Rightarrow> ('k, 'v) HashMap" where
  "after_resize m = (if needs_resize m then resized m (new_cap m) else m)"

definition setitem_result :: "('k, 'v) HashMap \<Rightarrow> 'k \<Rightarrow> 'v \<Rightarrow> ('k, 'v) HashMap" where
  "setitem_result m k v = insert_result (after_resize m) k v"

subsection \<open>The new capacity, in the words of the spec and as the code computes it\<close>

text \<open>
  The spec's wording: the new capacity is the smallest prime greater than or equal to
  \<open>count / threshold\<close>.
\<close>

definition smallest_prime_ge :: "real \<Rightarrow> int \<Rightarrow> bool" where
  "smallest_prime_ge x p \<longleftrightarrow>
     0 \<le> p \<and> is_prime (nat p) \<and> x \<le> real_of_int p \<and>
     (\<forall>q. is_prime q \<and> x \<le> real q \<longrightarrow> p \<le> int q)"

text \<open>What \<^verbatim>\<open>nextprime(int(count / threshold))\<close> gives: the smallest prime above the integer part.\<close>

definition smallest_prime_above :: "int \<Rightarrow> int \<Rightarrow> bool" where
  "smallest_prime_above n p \<longleftrightarrow>
     0 \<le> p \<and> is_prime (nat p) \<and> n < p \<and> (\<forall>q. is_prime q \<and> n < int q \<longrightarrow> p \<le> int q)"

text \<open>
  A map to try the claims on: \<^verbatim>\<open>HashMap(4)\<close> after \<^verbatim>\<open>m[1] = 'a'; m[2] = 'b'; m[3] = 'c'\<close>.
  Python's \<^verbatim>\<open>hash\<close> of a small integer is the integer itself, and an integer is not
  iterable.
\<close>

definition three_in_four :: "(int, string) HashMap" where
  "three_in_four =
     setitem_result (setitem_result (setitem_result
       (empty_map 4 (default_hash_function Scalar)) 1 ''a'') 2 ''b'') 3 ''c''"

section \<open>Graph (graph.py)\<close>

text \<open>
  The graph keeps \<^verbatim>\<open>_Vertex\<close> objects in a HashMap under their vertex data, and an
  \<^verbatim>\<open>_Edge\<close> holds a reference to its destination \<^verbatim>\<open>_Vertex\<close>. A vertex object is
  mutated in place when an edge is added, and survives in the edges that point to it when
  the map replaces it. So the objects live in a store: a reference is the index of the
  object in the list of all \<^verbatim>\<open>_Vertex\<close> objects allocated so far, and the HashMap
  and the edges hold references. Weights are real numbers.
\<close>

type_synonym ref = nat

record 'ed Edge =
  destination_vertex :: ref
  edge_data :: 'ed
  weight :: real

record ('vd, 'ed) Vertex =
  vertex_data :: 'vd
  edges :: "'ed Edge LinkedList"

record ('vd, 'ed) Graph =
  vertices_map :: "('vd, ref) HashMap"
  store :: "('vd, 'ed) Vertex list"

text \<open>
  \<^verbatim>\<open>Graph()\<close> creates \<^verbatim>\<open>HashMap()\<close>: capacity 7 and the default hash function, which
  calls Python's builtin hash. What the builtin hash returns on the vertex data is a
  parameter of the model.
\<close>

definition Graph_init :: "('vd \<Rightarrow> hashed) \<Rightarrow> error + ('vd, 'ed) Graph" where
  "Graph_init builtin_hash =
     bindE (HashMap_init 7 (Some (default_hash_function builtin_hash)) default_load_factor_threshold)
       (\<lambda>m. Inr \<lparr>vertices_map = m, store = []\<rparr>)"

text \<open>\<^verbatim>\<open>_Vertex(vertex_data)\<close>: a new object with an empty edge list.\<close>

definition Vertex_init :: "('vd, 'ed) Graph \<Rightarrow> 'vd \<Rightarrow> ref \<times> ('vd, 'ed) Graph" where
  "Vertex_init g d = (length (store g), g\<lparr>store := store g @ [\<lparr>vertex_data = d, edges = []\<rparr>]\<rparr>)"

definition Vertex_add_edge :: "('vd, 'ed) Graph \<Rightarrow> ref \<Rightarrow> 'ed Edge \<Rightarrow> ('vd, 'ed) Graph" where
  "Vertex_add_edge g r e =
     g\<lparr>store := (store g)[r := (store g ! r)\<lparr>edges := LinkedList_append (edges (store g ! r)) e\<rparr>]\<rparr>"

text \<open>
  The loop \<^verbatim>\<open>for i, x in enumerate(xs): array[i] = x\<close> that fills a new Array of
  \<^verbatim>\<open>None\<close>s.
\<close>

fun fill_Array :: "'a option Array \<Rightarrow> nat \<Rightarrow> 'a list \<Rightarrow> error + 'a option Array" where
  "fill_Array a i [] = Inr a"
| "fill_Array a i (x # xs) =
     bindE (Array_setitem a (int i) (Some x)) (\<lambda>a. fill_Array a (Suc i) xs)"

text \<open>
  The property \<^verbatim>\<open>vertices\<close>. The Array has \<^verbatim>\<open>len(self._vertices)\<close> slots, the count of
  the HashMap, and receives the values of the HashMap, which are shallow copies of the
  vertex objects: the model reads the objects from the store.
\<close>

definition vertices :: "('vd, 'ed) Graph \<Rightarrow> error + ('vd, 'ed) Vertex option Array" where
  "vertices g =
     bindE (HashMap_len (vertices_map g)) (\<lambda>n.
     bindE (HashMap_values (vertices_map g)) (\<lambda>rs.
       fill_Array (Array_init n None) 0 (map (\<lambda>r. store g ! r) rs)))"

definition add_vertex :: "('vd, 'ed) Graph \<Rightarrow> 'vd \<Rightarrow> error + ('vd, 'ed) Graph" where
  "add_vertex g d =
     (case Vertex_init g d of (r, g) \<Rightarrow>
        bindE (HashMap_setitem (vertices_map g) d r) (\<lambda>m. Inr (g\<lparr>vertices_map := m\<rparr>)))"

definition remove_vertex :: "('vd, 'ed) Graph \<Rightarrow> 'vd \<Rightarrow> error + ('vd, 'ed) Graph" where
  "remove_vertex g d =
     bindE (HashMap_delitem (vertices_map g) d) (\<lambda>m. Inr (g\<lparr>vertices_map := m\<rparr>))"

text \<open>The vertex for an endpoint of a new edge: created and stored when absent, looked up otherwise.\<close>

definition endpoint :: "('vd, 'ed) Graph \<Rightarrow> 'vd \<Rightarrow> error + ref \<times> ('vd, 'ed) Graph" where
  "endpoint g d =
     bindE (HashMap_contains (vertices_map g) d) (\<lambda>present.
       if \<not> present then
         (case Vertex_init g d of (r, g) \<Rightarrow>
            bindE (HashMap_setitem (vertices_map g) d r) (\<lambda>m. Inr (r, g\<lparr>vertices_map := m\<rparr>)))
       else bindE (HashMap_getitem (vertices_map g) d) (\<lambda>r. Inr (r, g)))"

definition add_edge ::
  "('vd, 'ed) Graph \<Rightarrow> 'vd \<Rightarrow> 'vd \<Rightarrow> 'ed \<Rightarrow> real \<Rightarrow> error + ('vd, 'ed) Graph" where
  "add_edge g vertex1_data vertex2_data ed w =
     bindE (endpoint g vertex1_data) (\<lambda>(vertex1, g).
     bindE (endpoint g vertex2_data) (\<lambda>(vertex2, g).
       Inr (Vertex_add_edge g vertex1
              \<lparr>destination_vertex = vertex2, edge_data = ed, weight = w\<rparr>)))"

definition edges_from :: "('vd, 'ed) Graph \<Rightarrow> 'vd \<Rightarrow> error + 'ed Edge option Array" where
  "edges_from g d =
     bindE (HashMap_contains (vertices_map g) d) (\<lambda>present.
       if present then
         bindE (HashMap_getitem (vertices_map g) d) (\<lambda>r.
           fill_Array (Array_init (int (length (edges (store g ! r)))) None) 0
             (edges (store g ! r)))
       else Inl ValueError)"

text \<open>
  \<^verbatim>\<open>remove_edge\<close> iterates \<^verbatim>\<open>self._vertices\<close>. Iterating a HashMap yields its keys, and
  the keys of this map are the vertex data (strings in the docstrings and in the spec's
  examples, \<^verbatim>\<open>Airport\<close> tuples in the driver), not \<^verbatim>\<open>_Vertex\<close> objects. Neither a
  string nor an \<^verbatim>\<open>Airport\<close> has an attribute \<^verbatim>\<open>data\<close> or \<^verbatim>\<open>edges\<close>, so reading one
  raises AttributeError.
\<close>

definition key_attribute :: "'vd \<Rightarrow> string \<Rightarrow> error + 'x" where
  "key_attribute vertex attr = Inl AttributeError"

fun find_endpoints ::
  "'vd list \<Rightarrow> 'vd \<Rightarrow> 'vd \<Rightarrow> 'vd option \<times> 'vd option \<Rightarrow> error + 'vd option \<times> 'vd option" where
  "find_endpoints [] vertex1_data vertex2_data found = Inr found"
| "find_endpoints (vertex # vs) vertex1_data vertex2_data (vertex1, vertex2) =
     bindE (key_attribute vertex ''data'') (\<lambda>d.
       if d = vertex1_data then find_endpoints vs vertex1_data vertex2_data (Some vertex, vertex2)
       else if d = vertex2_data then find_endpoints vs vertex1_data vertex2_data (vertex1, Some vertex)
       else find_endpoints vs vertex1_data vertex2_data (vertex1, vertex2))"

text \<open>
  After the loop both endpoints must have been found. The scan of \<^verbatim>\<open>vertex1.edges\<close> that
  follows reads the attribute \<^verbatim>\<open>edges\<close> of a key, so it raises before any edge is
  compared or removed.
\<close>

definition remove_edge ::
  "('vd, 'ed) Graph \<Rightarrow> 'vd \<Rightarrow> 'vd \<Rightarrow> 'ed \<Rightarrow> error + ('vd, 'ed) Graph" where
  "remove_edge g vertex1_data vertex2_data ed =
     bindE (HashMap_keys (vertices_map g)) (\<lambda>ks.
     bindE (find_endpoints ks vertex1_data vertex2_data (None, None)) (\<lambda>(vertex1, vertex2).
       case (vertex1, vertex2) of
         (Some v1, Some v2) \<Rightarrow>
           bindE (key_attribute v1 ''edges'') (\<lambda>es :: 'ed Edge list. Inr g)
       | _ \<Rightarrow> Inl ValueError))"

subsection \<open>What the graph operations return when the vertex map satisfies the invariant\<close>

definition endpoint_result :: "('vd, 'ed) Graph \<Rightarrow> 'vd \<Rightarrow> ref \<times> ('vd, 'ed) Graph" where
  "endpoint_result g d =
     (case hm_lookup (vertices_map g) d of
        None \<Rightarrow>
          (length (store g),
           \<lparr>vertices_map = setitem_result (vertices_map g) d (length (store g)),
            store = store g @ [\<lparr>vertex_data = d, edges = []\<rparr>]\<rparr>)
      | Some r \<Rightarrow> (r, g))"

definition add_edge_result ::
  "('vd, 'ed) Graph \<Rightarrow> 'vd \<Rightarrow> 'vd \<Rightarrow> 'ed \<Rightarrow> real \<Rightarrow> ('vd, 'ed) Graph" where
  "add_edge_result g v1 v2 ed w =
     (case endpoint_result g v1 of (vertex1, g) \<Rightarrow>
      case endpoint_result g v2 of (vertex2, g) \<Rightarrow>
        Vertex_add_edge g vertex1 \<lparr>destination_vertex = vertex2, edge_data = ed, weight = w\<rparr>)"

text \<open>
  The graphs of the spec's example: the empty graph after \<^verbatim>\<open>add_edge("A", "B", "x", 5.0)\<close>,
  and after \<^verbatim>\<open>add_edge("A", "B", "y", 7.0)\<close> as well. The vertex "A" is the object 0 and
  the vertex "B" the object 1.
\<close>

definition edge_x :: "string Edge" where
  "edge_x = \<lparr>destination_vertex = Suc 0, edge_data = ''x'', weight = 5\<rparr>"

definition edge_y :: "string Edge" where
  "edge_y = \<lparr>destination_vertex = Suc 0, edge_data = ''y'', weight = 7\<rparr>"

definition map_AB :: "(string \<Rightarrow> hashed) \<Rightarrow> (string, ref) HashMap" where
  "map_AB b =
     setitem_result (setitem_result (empty_map 7 (default_hash_function b)) ''A'' 0) ''B'' (Suc 0)"

definition graph_x :: "(string \<Rightarrow> hashed) \<Rightarrow> (string, string) Graph" where
  "graph_x b =
     \<lparr>vertices_map = map_AB b,
      store = [\<lparr>vertex_data = ''A'', edges = [edge_x]\<rparr>, \<lparr>vertex_data = ''B'', edges = []\<rparr>]\<rparr>"

definition graph_xy :: "(string \<Rightarrow> hashed) \<Rightarrow> (string, string) Graph" where
  "graph_xy b =
     \<lparr>vertices_map = map_AB b,
      store = [\<lparr>vertex_data = ''A'', edges = [edge_x, edge_y]\<rparr>,
               \<lparr>vertex_data = ''B'', edges = []\<rparr>]\<rparr>"

section \<open>ListStack (list_stack.py)\<close>

text \<open>
  Modelled from the spec: \<^verbatim>\<open>ListStack\<close> uses two more operations of the absent
  \<^verbatim>\<open>LinkedList\<close>, which the spec does not describe beyond their names: \<^verbatim>\<open>pop_back()\<close>
  removes the last item and \<^verbatim>\<open>back\<close> is the last item. Both are taken to raise IndexError
  on an empty list.
\<close>

definition LinkedList_pop_back :: "'a LinkedList \<Rightarrow> error + 'a LinkedList" where
  "LinkedList_pop_back xs = (if xs = [] then Inl IndexError else Inr (butlast xs))"

definition LinkedList_back :: "'a LinkedList \<Rightarrow> error + 'a" where
  "LinkedList_back xs = (if xs = [] then Inl IndexError else Inr (last xs))"

record 'a ListStack =
  stack_items :: "'a LinkedList"
  stack_top :: "'a option"

definition ListStack_init :: "'a ListStack" where
  "ListStack_init = \<lparr>stack_items = [], stack_top = None\<rparr>"

definition push :: "'a ListStack \<Rightarrow> 'a \<Rightarrow> 'a ListStack" where
  "push s item = \<lparr>stack_items = LinkedList_append (stack_items s) item, stack_top = Some item\<rparr>"

definition ListStack_empty :: "'a ListStack \<Rightarrow> bool" where
  "ListStack_empty s = (stack_top s = None)"

definition pop :: "'a ListStack \<Rightarrow> error + 'a \<times> 'a ListStack" where
  "pop s =
     (case stack_top s of
        None \<Rightarrow> Inl IndexError
      | Some item \<Rightarrow>
          bindE (LinkedList_pop_back (stack_items s)) (\<lambda>xs.
            if length xs = 0 then Inr (item, \<lparr>stack_items = xs, stack_top = None\<rparr>)
            else bindE (LinkedList_back xs) (\<lambda>t.
                   Inr (item, \<lparr>stack_items = xs, stack_top = Some t\<rparr>))))"

section \<open>Dijkstra (program.py)\<close>

text \<open>
  An \<^verbatim>\<open>Airport\<close> is a named tuple; its field \<^verbatim>\<open>id\<close> is \<open>airport_id\<close> here. The
  coordinates are real numbers.
\<close>

record Airport =
  airport_code :: string
  name :: string
  airport_id :: int
  city :: string
  country :: string
  latitude :: real
  longitude :: real

text \<open>
  The engine: the graph, the table of distances from the origin (-1 for a vertex that has
  not been reached), the table of predecessors (\<^verbatim>\<open>None\<close> for none), the stack of airport
  codes used to print a route, and the airports by code. Distances and weights are real
  numbers: the sums of the model are exact, where Python adds floats.
\<close>

record 'ed Dijkstra =
  graph :: "(Airport, 'ed) Graph"
  distances_from_origin :: "(Airport, real) HashMap"
  route_connections :: "(Airport, Airport option) HashMap"
  shortest_route :: "string ListStack"
  airports :: "(string, Airport) HashMap"

text \<open>\<^verbatim>\<open>for airport in self._graph.vertices: self._airports[airport.vertex_data.airport_code] = airport.vertex_data\<close>\<close>

fun collect_airports ::
  "(Airport, 'ed) Vertex option list \<Rightarrow> (string, Airport) HashMap \<Rightarrow> error + (string, Airport) HashMap"
where
  "collect_airports [] m = Inr m"
| "collect_airports (None # vs) m = Inl AttributeError"
| "collect_airports (Some airport # vs) m =
     bindE (HashMap_setitem m (airport_code (vertex_data airport)) (vertex_data airport))
       (collect_airports vs)"

text \<open>
  \<^verbatim>\<open>for vertex in self._graph.vertices:\<close> set the distance of the vertex to -1 and its
  predecessor to \<^verbatim>\<open>None\<close>.
\<close>

fun init_tables ::
  "(Airport, 'ed) Vertex option list \<Rightarrow>
   (Airport, real) HashMap \<times> (Airport, Airport option) HashMap \<Rightarrow>
   error + (Airport, real) HashMap \<times> (Airport, Airport option) HashMap"
where
  "init_tables [] tables = Inr tables"
| "init_tables (None # vs) tables = Inl AttributeError"
| "init_tables (Some vertex # vs) (dists, conn) =
     bindE (HashMap_setitem dists (vertex_data vertex) (- 1)) (\<lambda>dists.
     bindE (HashMap_setitem conn (vertex_data vertex) None) (\<lambda>conn.
       init_tables vs (dists, conn)))"

text \<open>
  The constructor. Each \<^verbatim>\<open>HashMap()\<close> has the default hash function, which calls
  Python's builtin hash: what it returns on an \<^verbatim>\<open>Airport\<close> and on an airport code are
  the two parameters.
\<close>

definition Dijkstra_init ::
  "(Airport \<Rightarrow> hashed) \<Rightarrow> (string \<Rightarrow> hashed) \<Rightarrow> (Airport, 'ed) Graph \<Rightarrow> error + 'ed Dijkstra" where
  "Dijkstra_init hash_airport hash_code g =
     bindE (HashMap_init 7 (Some (default_hash_function hash_airport)) default_load_factor_threshold)
       (\<lambda>dists.
     bindE (HashMap_init 7 (Some (default_hash_function hash_airport)) default_load_factor_threshold)
       (\<lambda>conn.
     bindE (HashMap_init 7 (Some (default_hash_function hash_code)) default_load_factor_threshold)
       (\<lambda>aps.
     bindE (vertices g) (\<lambda>vs.
     bindE (collect_airports (Array_iter vs) aps) (\<lambda>aps.
     bindE (vertices g) (\<lambda>vs.
     bindE (init_tables (Array_iter vs) (dists, conn)) (\<lambda>(dists, conn).
       Inr \<lparr>graph = g, distances_from_origin = dists, route_connections = conn,
            shortest_route = ListStack_init, airports = aps\<rparr>)))))))"

text \<open>
  A vertex read from the working Array can be \<^verbatim>\<open>None\<close> as far as the types go. \<^verbatim>\<open>None\<close>
  is never a key of the distance table, so looking it up raises KeyError.
\<close>

definition distance_of :: "(Airport, real) HashMap \<Rightarrow> Airport option \<Rightarrow> error + real" where
  "distance_of dists vertex =
     (case vertex of None \<Rightarrow> Inl KeyError | Some a \<Rightarrow> HashMap_getitem dists a)"

text \<open>
  The first loop of \<^verbatim>\<open>find_shortest_paths\<close>: reset the distance of every airport but the
  origin and put the airport into the working Array.
\<close>

fun reset_distances ::
  "Airport list \<Rightarrow> Airport \<Rightarrow> nat \<Rightarrow> (Airport, real) HashMap \<times> Airport option Array \<Rightarrow>
   error + (Airport, real) HashMap \<times> Airport option Array"
where
  "reset_distances [] origin index state = Inr state"
| "reset_distances (vertex # vs) origin index (dists, vertex_array) =
     bindE (if vertex \<noteq> origin then HashMap_setitem dists vertex (- 1) else Inr dists) (\<lambda>dists.
     bindE (Array_setitem vertex_array (int index) (Some vertex)) (\<lambda>vertex_array.
       reset_distances vs origin (Suc index) (dists, vertex_array)))"

text \<open>
  The scan for the vertex of the working Array with the smallest distance above -1; the
  first one found wins a tie.
\<close>

fun select_minimum ::
  "(Airport, real) HashMap \<Rightarrow> Airport option list \<Rightarrow> Airport option \<Rightarrow> error + Airport option"
where
  "select_minimum dists [] minimum_distance_vertex = Inr minimum_distance_vertex"
| "select_minimum dists (vertex # vs) minimum_distance_vertex =
     bindE (distance_of dists vertex) (\<lambda>dv.
       if dv > - 1 then
         (if minimum_distance_vertex = None then select_minimum dists vs vertex
          else bindE (distance_of dists vertex) (\<lambda>dv.
               bindE (distance_of dists minimum_distance_vertex) (\<lambda>dm.
                 if dv < dm then select_minimum dists vs vertex
                 else select_minimum dists vs minimum_distance_vertex)))
       else select_minimum dists vs minimum_distance_vertex)"

text \<open>
  \<^verbatim>\<open>for i in range(len(vertex_array)): if vertex_array[i] == minimum_distance_vertex: del vertex_array[i]; break\<close>
\<close>

fun delete_vertex ::
  "Airport option Array \<Rightarrow> nat list \<Rightarrow> Airport option \<Rightarrow> error + Airport option Array" where
  "delete_vertex vertex_array [] minimum_distance_vertex = Inr vertex_array"
| "delete_vertex vertex_array (i # is) minimum_distance_vertex =
     bindE (Array_getitem vertex_array (int i)) (\<lambda>x.
       if x = minimum_distance_vertex then Array_delitem vertex_array (int i)
       else delete_vertex vertex_array is minimum_distance_vertex)"

text \<open>
  The relaxation of the edges that leave the selected vertex. An entry of the Array of
  edges can be \<^verbatim>\<open>None\<close> as far as the types go; reading its weight raises AttributeError.
\<close>

fun relax_edges ::
  "(Airport, 'ed) Graph \<Rightarrow> Airport \<Rightarrow> 'ed Edge option list \<Rightarrow>
   (Airport, real) HashMap \<times> (Airport, Airport option) HashMap \<Rightarrow>
   error + (Airport, real) HashMap \<times> (Airport, Airport option) HashMap"
where
  "relax_edges g u [] tables = Inr tables"
| "relax_edges g u (None # routes) tables = Inl AttributeError"
| "relax_edges g u (Some route # routes) (dists, conn) =
     bindE (HashMap_getitem dists u) (\<lambda>du.
       let path = du + weight route;
           v = vertex_data (store g ! destination_vertex route)
       in bindE (HashMap_getitem dists v) (\<lambda>dv.
          bindE (if dv = - 1 then Inr True
                 else bindE (HashMap_getitem dists v) (\<lambda>dv. Inr (path < dv))) (\<lambda>better.
            if better then
              bindE (HashMap_setitem dists v path) (\<lambda>dists.
              bindE (HashMap_setitem conn v (Some u)) (\<lambda>conn.
                relax_edges g u routes (dists, conn)))
            else relax_edges g u routes (dists, conn))))"

text \<open>
  The main loop of \<^verbatim>\<open>find_shortest_paths\<close>. Each round deletes one vertex from the
  working Array or leaves the loop, so the loop ends when the Array was built as
  \<^verbatim>\<open>find_shortest_paths\<close> builds it; the recursion is bounded by a number of rounds, and
  the result is \<open>None\<close> when the bound is used up before the loop ends.
\<close>

fun relax_loop ::
  "nat \<Rightarrow> (Airport, 'ed) Graph \<Rightarrow>
   (Airport, real) HashMap \<times> (Airport, Airport option) HashMap \<times> Airport option Array \<Rightarrow>
   (error + (Airport, real) HashMap \<times> (Airport, Airport option) HashMap) option"
where
  "relax_loop rounds g (dists, conn, vertex_array) =
     (case Array_len vertex_array of
        Inl e \<Rightarrow> Some (Inl e)
      | Inr n \<Rightarrow>
          if n = 0 then Some (Inr (dists, conn))
          else
            (case rounds of
               0 \<Rightarrow> None
             | Suc rounds \<Rightarrow>
                 (case bindE (select_minimum dists (Array_iter vertex_array) None) (\<lambda>m.
                       bindE (delete_vertex vertex_array [0..<nat n] m) (\<lambda>vertex_array.
                         case m of
                           None \<Rightarrow> Inr (None, dists, conn, vertex_array)
                         | Some u \<Rightarrow>
                             bindE (edges_from g u) (\<lambda>routes_array.
                             bindE (relax_edges g u (Array_iter routes_array) (dists, conn))
                               (\<lambda>(dists, conn). Inr (Some u, dists, conn, vertex_array)))))
                  of
                    Inl e \<Rightarrow> Some (Inl e)
                  | Inr (None, dists, conn, vertex_array) \<Rightarrow> Some (Inr (dists, conn))
                  | Inr (Some u, state) \<Rightarrow> relax_loop rounds g state)))"

definition find_shortest_paths :: "nat \<Rightarrow> 'ed Dijkstra \<Rightarrow> Airport \<Rightarrow> (error + 'ed Dijkstra) option" where
  "find_shortest_paths rounds d origin =
     (case bindE (HashMap_len (airports d)) (\<lambda>n.
           bindE (HashMap_setitem (route_connections d) origin None) (\<lambda>conn.
           bindE (HashMap_setitem (distances_from_origin d) origin 0) (\<lambda>dists.
           bindE (HashMap_values (airports d)) (\<lambda>vs.
           bindE (reset_distances vs origin 0 (dists, Array_init n None)) (\<lambda>(dists, vertex_array).
             Inr (dists, conn, vertex_array))))))
      of
        Inl e \<Rightarrow> Some (Inl e)
      | Inr state \<Rightarrow>
          (case relax_loop rounds (graph d) state of
             None \<Rightarrow> None
           | Some (Inl e) \<Rightarrow> Some (Inl e)
           | Some (Inr (dists, conn)) \<Rightarrow>
               Some (Inr (d\<lparr>distances_from_origin := dists, route_connections := conn\<rparr>))))"

text \<open>What \<^verbatim>\<open>run\<close> prints, one line each.\<close>

datatype printed =
    NoRoute string string
  | RouteHeader string string
  | Leg string string
  | TotalMiles real

text \<open>
  The walk from the destination along the predecessors. Its result is whether the origin
  was reached. The walk ends unless the predecessors form a cycle, so it is bounded like
  the main loop.
\<close>

fun walk_back ::
  "nat \<Rightarrow> (Airport, Airport option) HashMap \<Rightarrow> Airport \<Rightarrow> Airport \<Rightarrow> string ListStack \<Rightarrow>
   (error + bool \<times> string ListStack) option"
where
  "walk_back rounds conn origin vertex s =
     (if vertex = origin then Some (Inr (True, s))
      else
        (case rounds of
           0 \<Rightarrow> None
         | Suc rounds \<Rightarrow>
             (let s = push s (airport_code vertex) in
              case HashMap_getitem conn vertex of
                Inl e \<Rightarrow> Some (Inl e)
              | Inr None \<Rightarrow> Some (Inr (False, s))
              | Inr (Some previous) \<Rightarrow> walk_back rounds conn origin previous s)))"

text \<open>\<^verbatim>\<open>round(x, 2)\<close>: to the nearest hundredth, a tie to the even one.\<close>

definition round_half_even :: "real \<Rightarrow> int" where
  "round_half_even y =
     (if y - real_of_int \<lfloor>y\<rfloor> < 1 / 2 then \<lfloor>y\<rfloor>
      else if y - real_of_int \<lfloor>y\<rfloor> > 1 / 2 then \<lfloor>y\<rfloor> + 1
      else if even \<lfloor>y\<rfloor> then \<lfloor>y\<rfloor> else \<lfloor>y\<rfloor> + 1)"

definition round2 :: "real \<Rightarrow> real" where
  "round2 x = real_of_int (round_half_even (x * 100)) / 100"

text \<open>
  \<^verbatim>\<open>while not self._shortest_route.empty:\<close> pop the next code and print the leg. Each pop
  shortens the stack, or raises.
\<close>

function print_legs :: "string \<Rightarrow> string ListStack \<Rightarrow> error + printed list \<times> string ListStack" where
  "print_legs previous_airport s =
     (if ListStack_empty s then Inr ([], s)
      else bindE (pop s) (\<lambda>(next_airport, s').
             if length (stack_items s') < length (stack_items s)
             then bindE (print_legs next_airport s') (\<lambda>(out, s'').
                    Inr (Leg previous_airport next_airport # out, s''))
             else Inl IndexError))"
  by pat_completeness auto
termination
  by (relation "measure (\<lambda>(p, s). length (stack_items s))") auto

declare print_legs.simps [simp del]

text \<open>
  \<^verbatim>\<open>run\<close>, for the origin and the destination that the two prompts return, and with the
  answer "no" to the final prompt. The result is the printed lines and the engine.
\<close>

definition run ::
  "nat \<Rightarrow> 'ed Dijkstra \<Rightarrow> Airport \<Rightarrow> Airport \<Rightarrow> (error + printed list \<times> 'ed Dijkstra) option" where
  "run rounds d origin_airport destination_airport =
     (case find_shortest_paths rounds d origin_airport of
        None \<Rightarrow> None
      | Some (Inl e) \<Rightarrow> Some (Inl e)
      | Some (Inr d) \<Rightarrow>
          (case walk_back rounds (route_connections d) origin_airport destination_airport
                  (shortest_route d) of
             None \<Rightarrow> None
           | Some (Inl e) \<Rightarrow> Some (Inl e)
           | Some (Inr (False, s)) \<Rightarrow>
               Some (Inr ([NoRoute (airport_code origin_airport) (airport_code destination_airport)],
                          d\<lparr>shortest_route := s\<rparr>))
           | Some (Inr (True, s)) \<Rightarrow>
               Some (bindE (print_legs (airport_code origin_airport) s) (\<lambda>(legs, s).
                     bindE (HashMap_getitem (distances_from_origin d) destination_airport) (\<lambda>total.
                       Inr (RouteHeader (airport_code origin_airport) (airport_code destination_airport)
                              # legs @ [TotalMiles (round2 total)],
                            d\<lparr>shortest_route := s\<rparr>))))))"

section \<open>Dijkstra: abstractions and the graphs of the examples\<close>

text \<open>
  A map whose count is the number of its pairs: what \<^verbatim>\<open>__setitem__\<close> keeps and
  \<^verbatim>\<open>__delitem__\<close> breaks.
\<close>

definition hm_exact :: "('k, 'v) HashMap \<Rightarrow> bool" where
  "hm_exact m \<longleftrightarrow> hm_inv m \<and> count m = int (n_pairs m)"

text \<open>The vertex objects that the vertex map refers to, in the order of \<^verbatim>\<open>values()\<close>.\<close>

definition vertex_list :: "('vd, 'ed) Graph \<Rightarrow> ('vd, 'ed) Vertex list" where
  "vertex_list g = map (\<lambda>r. store g ! r) (map snd (the_items (vertices_map g)))"

text \<open>
  What \<open>select_minimum\<close> computes, on vertices that all have a distance \<open>D\<close>: the first of
  the reached vertices with the least distance.
\<close>

fun first_minimum :: "('a \<Rightarrow> real) \<Rightarrow> 'a list \<Rightarrow> 'a option \<Rightarrow> 'a option" where
  "first_minimum D [] acc = acc"
| "first_minimum D (x # xs) acc =
     (if D x > - 1 then
        (case acc of
           None \<Rightarrow> first_minimum D xs (Some x)
         | Some a \<Rightarrow> if D x < D a then first_minimum D xs (Some x) else first_minimum D xs acc)
      else first_minimum D xs acc)"

text \<open>The distance of a vertex that is a key of the distance table.\<close>

definition distance :: "(Airport, real) HashMap \<Rightarrow> Airport \<Rightarrow> real" where
  "distance ds a = (case hm_lookup ds a of Some x \<Rightarrow> x | None \<Rightarrow> - 1)"

text \<open>Three airports with the codes A, B and C.\<close>

definition airport_A :: Airport where
  "airport_A = \<lparr>airport_code = ''A'', name = ''Alpha'', airport_id = 1, city = ''Alpha City'',
                 country = ''Aland'', latitude = 0, longitude = 0\<rparr>"

definition airport_B :: Airport where
  "airport_B = \<lparr>airport_code = ''B'', name = ''Bravo'', airport_id = 2, city = ''Bravo City'',
                 country = ''Bland'', latitude = 1, longitude = 1\<rparr>"

definition airport_C :: Airport where
  "airport_C = \<lparr>airport_code = ''C'', name = ''Charlie'', airport_id = 3, city = ''Charlie City'',
                 country = ''Cland'', latitude = 2, longitude = 2\<rparr>"

text \<open>
  The graph of the spec's example, with the edges A to B of weight 1, B to C of weight 2 and
  A to C of weight 10: the vertices A, B and C are the objects 0, 1 and 2.
\<close>

definition map_ABC :: "(Airport \<Rightarrow> hashed) \<Rightarrow> (Airport, ref) HashMap" where
  "map_ABC ha =
     setitem_result (setitem_result (setitem_result
       (empty_map 7 (default_hash_function ha)) airport_A 0) airport_B (Suc 0)) airport_C 2"

definition route_graph :: "(Airport \<Rightarrow> hashed) \<Rightarrow> 'ed \<Rightarrow> 'ed \<Rightarrow> 'ed \<Rightarrow> (Airport, 'ed) Graph" where
  "route_graph ha e1 e2 e3 =
     \<lparr>vertices_map = map_ABC ha,
      store =
        [\<lparr>vertex_data = airport_A,
          edges = [\<lparr>destination_vertex = Suc 0, edge_data = e1, weight = 1\<rparr>,
                   \<lparr>destination_vertex = 2, edge_data = e3, weight = 10\<rparr>]\<rparr>,
         \<lparr>vertex_data = airport_B,
          edges = [\<lparr>destination_vertex = 2, edge_data = e2, weight = 2\<rparr>]\<rparr>,
         \<lparr>vertex_data = airport_C, edges = []\<rparr>]\<rparr>"

text \<open>
  The graph with the vertices A and B and no edge that is left when the vertices A, B and C
  are added and C is removed.
\<close>

definition two_airports :: "(Airport \<Rightarrow> hashed) \<Rightarrow> (Airport, 'ed) Graph" where
  "two_airports ha =
     \<lparr>vertices_map = delete_result (map_ABC ha) airport_C,
      store = [\<lparr>vertex_data = airport_A, edges = []\<rparr>, \<lparr>vertex_data = airport_B, edges = []\<rparr>,
               \<lparr>vertex_data = airport_C, edges = []\<rparr>]\<rparr>"

text \<open>
  The paths of a graph, as \<^verbatim>\<open>edges_from\<close> shows them: the successors of a vertex are the
  destinations of the edges of the vertex object that the vertex map holds for it, and a
  vertex is reachable from another by a chain of successors.
\<close>

definition successors :: "('vd, 'ed) Graph \<Rightarrow> 'vd \<Rightarrow> 'vd list" where
  "successors g u =
     (case hm_lookup (vertices_map g) u of
        None \<Rightarrow> []
      | Some r \<Rightarrow> map (\<lambda>e. vertex_data (store g ! destination_vertex e)) (edges (store g ! r)))"

inductive reachable :: "('vd, 'ed) Graph \<Rightarrow> 'vd \<Rightarrow> 'vd \<Rightarrow> bool" for g a where
  origin: "reachable g a a"
| edge: "reachable g a u \<Longrightarrow> v \<in> set (successors g u) \<Longrightarrow> reachable g a v"

text \<open>
  The graphs on which the engine is studied: the count of the vertex map is the number of
  its keys, each key refers to an allocated vertex object with that key as its data, and
  each edge of each allocated object leads to an allocated object whose data is a key.
\<close>

definition graph_ok :: "('vd, 'ed) Graph \<Rightarrow> bool" where
  "graph_ok g \<longleftrightarrow>
     hm_exact (vertices_map g) \<and>
     list_all (\<lambda>(u, r). r < length (store g) \<and> vertex_data (store g ! r) = u)
       (the_items (vertices_map g)) \<and>
     list_all (\<lambda>vertex.
         list_all (\<lambda>e. destination_vertex e < length (store g) \<and>
             vertex_data (store g ! destination_vertex e) \<in> fst ` set (the_items (vertices_map g)))
           (edges vertex))
       (store g)"

text \<open>The graph with the vertices A and B and no edge, after \<^verbatim>\<open>add_vertex\<close> of each.\<close>

definition apart_graph :: "(Airport \<Rightarrow> hashed) \<Rightarrow> (Airport, 'ed) Graph" where
  "apart_graph ha =
     \<lparr>vertices_map =
        setitem_result (setitem_result (empty_map 7 (default_hash_function ha)) airport_A 0)
          airport_B (Suc 0),
      store = [\<lparr>vertex_data = airport_A, edges = []\<rparr>, \<lparr>vertex_data = airport_B, edges = []\<rparr>]\<rparr>"

text \<open>The graphs made from the empty graph by \<^verbatim>\<open>add_vertex\<close> and \<^verbatim>\<open>add_edge\<close> alone.\<close>

inductive constructed :: "('vd \<Rightarrow> hashed) \<Rightarrow> ('vd, 'ed) Graph \<Rightarrow> bool" for b where
  new: "Graph_init b = Inr g \<Longrightarrow> constructed b g"
| vertex: "constructed b g \<Longrightarrow> add_vertex g d = Inr g' \<Longrightarrow> constructed b g'"
| edge: "constructed b g \<Longrightarrow> add_edge g v1 v2 ed w = Inr g' \<Longrightarrow> constructed b g'"

section \<open>HashMap: the operations on the invariant\<close>

lemma find_key: "find (\<lambda>p. fst p = k) xs = map_option (Pair k) (map_of xs k)"
  by (induction xs) auto

lemma hash_ok_default: "hash_ok (default_hash_function b)"
  by (auto simp: hash_ok_def default_hash_function_def split: hashed.splits)

lemma hm_inv_slot:
  assumes "hm_inv m"
  shows "hash_function m k (int (n_buckets m)) = Inr (int (slot m k))" and "slot m k < n_buckets m"
proof -
  from assms have "hash_ok (hash_function m)" "0 < n_buckets m" by (simp_all add: hm_inv_def)
  then obtain i where "hash_function m k (int (n_buckets m)) = Inr i" "0 \<le> i" "i < int (n_buckets m)"
    unfolding hash_ok_def by (metis of_nat_0_less_iff)
  then show "hash_function m k (int (n_buckets m)) = Inr (int (slot m k))" "slot m k < n_buckets m"
    by (auto simp: slot_def)
qed

lemma hm_inv_chain:
  assumes "hm_inv m" "i < n_buckets m"
  shows "items (buckets m) ! i = Some (chain_at m i)"
    and "distinct (map fst (chain_at m i))"
    and "p \<in> set (chain_at m i) \<Longrightarrow> slot m (fst p) = i"
  using assms unfolding hm_inv_def chain_at_def by (fastforce)+

lemma capacity_inv: "hm_inv m \<Longrightarrow> capacity m = Inr (int (n_buckets m))"
  by (simp add: capacity_def Array_len_def hm_inv_def)

lemma bucket_of_inv:
  assumes "hm_inv m"
  shows "bucket_of m k = Inr (int (slot m k), chain_at m (slot m k))"
  using hm_inv_slot [OF assms, of k] hm_inv_chain(1) [OF assms, of "slot m k"]
  by (simp add: bucket_of_def capacity_inv [OF assms] Array_getitem_def n_buckets_def iter_bucket_def)

lemma getitem_inv:
  assumes "hm_inv m"
  shows "HashMap_getitem m k = (case hm_lookup m k of Some v \<Rightarrow> Inr v | None \<Rightarrow> Inl KeyError)"
  by (simp add: HashMap_getitem_def bucket_of_inv [OF assms] find_key hm_lookup_def split: option.splits)

lemma contains_inv:
  assumes "hm_inv m"
  shows "HashMap_contains m k = Inr (hm_lookup m k \<noteq> None)"
  by (simp add: HashMap_contains_def bucket_of_inv [OF assms] find_key hm_lookup_def)

lemma remove1_keys:
  "distinct (map fst xs) \<Longrightarrow> map_of xs k = Some w \<Longrightarrow>
   map fst (remove1 (k, w) xs) = remove1 k (map fst xs)"
  by (induction xs) (auto simp: rev_image_eqI)

lemma map_of_remove1:
  "distinct (map fst xs) \<Longrightarrow> map_of xs k = Some w \<Longrightarrow>
   map_of (remove1 (k, w) xs) = (map_of xs)(k := None)"
proof (induction xs)
  case Nil then show ?case by simp
next
  case (Cons x xs)
  show ?case
  proof (cases "fst x = k")
    case True
    with Cons.prems have "x = (k, w)" by (cases x) auto
    moreover from Cons.prems True have "map_of xs k = None"
      by (auto simp: map_of_eq_None_iff)
    ultimately show ?thesis by (auto simp: fun_eq_iff)
  next
    case False
    with Cons show ?thesis by (cases x) (auto simp: fun_eq_iff)
  qed
qed

lemma put_chain_distinct:
  "distinct (map fst chain) \<Longrightarrow> distinct (map fst (put_chain chain k v))"
  by (auto simp: put_chain_def remove1_keys map_of_eq_None_iff split: option.splits)

lemma put_chain_map_of:
  "distinct (map fst chain) \<Longrightarrow> map_of (put_chain chain k v) = (map_of chain)(k \<mapsto> v)"
  by (auto simp: put_chain_def map_of_remove1 remove1_keys fun_eq_iff map_add_def
           split: option.splits)

lemma put_chain_keys:
  "p \<in> set (put_chain chain k v) \<Longrightarrow> fst p = k \<or> p \<in> set chain"
  by (auto simp: put_chain_def split: option.splits dest: notin_set_remove1)

lemma put_chain_length:
  "length (put_chain chain k v) = length chain + (if map_of chain k = None then 1 else 0)"
  by (auto simp: put_chain_def length_remove1 split: option.splits dest!: map_of_SomeD)
     (metis Suc_pred length_pos_if_in_set)

lemma insert_pair_inv:
  assumes "hm_inv m"
  shows "insert_pair m k v = Inr (insert_result m k v)"
proof (cases "hm_lookup m k")
  case None
  then show ?thesis
    by (simp add: insert_pair_def bucket_of_inv [OF assms] find_key hm_lookup_def
        insert_result_def put_chain_def LinkedList_append_def)
next
  case (Some w)
  then have "(k, w) \<in> set (chain_at m (slot m k))"
    by (simp add: hm_lookup_def map_of_SomeD)
  with Some show ?thesis
    by (simp add: insert_pair_def bucket_of_inv [OF assms] find_key hm_lookup_def
        insert_result_def put_chain_def LinkedList_append_def LinkedList_extract_def
        set_chain_def)
qed

lemma insert_result_fields [simp]:
  "n_buckets (insert_result m k v) = n_buckets m"
  "hash_function (insert_result m k v) = hash_function m"
  "load_factor_threshold (insert_result m k v) = load_factor_threshold m"
  "logical_size (buckets (insert_result m k v)) = logical_size (buckets m)"
  "slot (insert_result m k v) k' = slot m k'"
  "count (insert_result m k v) = count m + (if hm_lookup m k = None then 1 else 0)"
  by (simp_all add: insert_result_def set_chain_def n_buckets_def slot_def)

lemma insert_result_chain_at:
  assumes "hm_inv m" "i < n_buckets m"
  shows "items (buckets (insert_result m k v)) ! i =
           Some (if i = slot m k then put_chain (chain_at m (slot m k)) k v else chain_at m i)"
  using assms hm_inv_slot(2) [OF assms(1), of k] hm_inv_chain(1) [OF assms]
  by (auto simp: insert_result_def set_chain_def n_buckets_def)

lemma insert_result_n_pairs:
  assumes "hm_inv m"
  shows "n_pairs (insert_result m k v) = n_pairs m + (if hm_lookup m k = None then 1 else 0)"
proof -
  have "n_pairs (insert_result m k v)
        = n_pairs (set_chain m (int (slot m k)) (put_chain (chain_at m (slot m k)) k v))"
    by (simp add: insert_result_def n_pairs_def)
  with n_pairs_set_chain [of "int (slot m k)" m "chain_at m (slot m k)"
         "put_chain (chain_at m (slot m k)) k v"]
    hm_inv_slot(2) [OF assms, of k] hm_inv_chain(1) [OF assms, of "slot m k"]
  show ?thesis
    by (simp add: n_buckets_def put_chain_length hm_lookup_def)
qed

lemma insert_result_inv:
  assumes "hm_inv m"
  shows "hm_inv (insert_result m k v)"
proof -
  have "\<exists>chain. items (buckets (insert_result m k v)) ! i = Some chain \<and>
         distinct (map fst chain) \<and> (\<forall>p \<in> set chain. slot m (fst p) = i)"
    if "i < n_buckets m" for i
    using insert_result_chain_at [OF assms that, of k v] hm_inv_chain(2,3) [OF assms that]
    by (auto simp: put_chain_distinct dest!: put_chain_keys)
  then show ?thesis
    using assms insert_result_n_pairs [OF assms, of k v]
    by (simp add: hm_inv_def)
qed

lemma insert_result_lookup:
  assumes "hm_inv m"
  shows "hm_lookup (insert_result m k v) = (hm_lookup m)(k \<mapsto> v)"
proof
  fix k'
  have c: "chain_at (insert_result m k v) (slot m k') =
        (if slot m k' = slot m k then put_chain (chain_at m (slot m k)) k v
         else chain_at m (slot m k'))"
    using insert_result_chain_at [OF assms hm_inv_slot(2) [OF assms, of k'], of k v]
    by (simp add: chain_at_def)
  show "hm_lookup (insert_result m k v) k' = ((hm_lookup m)(k \<mapsto> v)) k'"
    using hm_inv_chain(2) [OF assms hm_inv_slot(2) [OF assms, of k]]
    by (auto simp: hm_lookup_def c put_chain_map_of)
qed

lemma delitem_inv:
  assumes "hm_inv m"
  shows "HashMap_delitem m k =
           (case hm_lookup m k of None \<Rightarrow> Inl KeyError | Some w \<Rightarrow> Inr (delete_result m k))"
proof (cases "hm_lookup m k")
  case None
  then show ?thesis
    by (simp add: HashMap_delitem_def bucket_of_inv [OF assms] find_key hm_lookup_def)
next
  case (Some w)
  then have "(k, w) \<in> set (chain_at m (slot m k))"
    by (simp add: hm_lookup_def map_of_SomeD)
  with Some show ?thesis
    by (simp add: HashMap_delitem_def bucket_of_inv [OF assms] find_key
        delete_result_def LinkedList_extract_def hm_lookup_def)
qed

lemma delete_result_fields [simp]:
  "n_buckets (delete_result m k) = n_buckets m"
  "hash_function (delete_result m k) = hash_function m"
  "load_factor_threshold (delete_result m k) = load_factor_threshold m"
  "logical_size (buckets (delete_result m k)) = logical_size (buckets m)"
  "slot (delete_result m k) k' = slot m k'"
  "count (delete_result m k) = count m"
  by (simp_all add: delete_result_def set_chain_def n_buckets_def slot_def)

lemma delete_result_chain_at:
  assumes "hm_inv m" "i < n_buckets m" "hm_lookup m k = Some w"
  shows "items (buckets (delete_result m k)) ! i =
           Some (if i = slot m k then remove1 (k, w) (chain_at m (slot m k)) else chain_at m i)"
  using assms hm_inv_slot(2) [OF assms(1), of k] hm_inv_chain(1) [OF assms(1,2)]
  by (auto simp: delete_result_def set_chain_def n_buckets_def)

lemma delete_result_n_pairs:
  assumes "hm_inv m" "hm_lookup m k = Some w"
  shows "n_pairs (delete_result m k) + 1 = n_pairs m"
proof -
  from assms(2) have "(k, w) \<in> set (chain_at m (slot m k))"
    by (simp add: hm_lookup_def map_of_SomeD)
  then have "length (remove1 (k, w) (chain_at m (slot m k))) + 1 = length (chain_at m (slot m k))"
    by (simp add: length_remove1) (metis Suc_pred length_pos_if_in_set)
  with n_pairs_set_chain [of "int (slot m k)" m "chain_at m (slot m k)"
         "remove1 (k, w) (chain_at m (slot m k))"]
    hm_inv_slot(2) [OF assms(1), of k] hm_inv_chain(1) [OF assms(1), of "slot m k"] assms(2)
  show ?thesis
    by (simp add: n_buckets_def delete_result_def)
qed

lemma delete_result_inv:
  assumes "hm_inv m" "hm_lookup m k = Some w"
  shows "hm_inv (delete_result m k)"
proof -
  have "\<exists>chain. items (buckets (delete_result m k)) ! i = Some chain \<and>
         distinct (map fst chain) \<and> (\<forall>p \<in> set chain. slot m (fst p) = i)"
    if "i < n_buckets m" for i
  proof (cases "i = slot m k")
    case False
    with delete_result_chain_at [OF assms(1) that assms(2)] hm_inv_chain(2,3) [OF assms(1) that]
    show ?thesis by simp
  next
    case True
    let ?c = "chain_at m (slot m k)"
    from True that hm_inv_chain(2,3) [OF assms(1), of "slot m k"]
    have d: "distinct (map fst ?c)" and s: "\<forall>p \<in> set ?c. slot m (fst p) = i" by auto
    from assms(2) have "map_of ?c k = Some w" by (simp add: hm_lookup_def)
    with d have "map fst (remove1 (k, w) ?c) = remove1 k (map fst ?c)" by (rule remove1_keys)
    with d have "distinct (map fst (remove1 (k, w) ?c))" by simp
    moreover have "\<forall>p \<in> set (remove1 (k, w) ?c). slot m (fst p) = i"
      using s notin_set_remove1 by fast
    ultimately show ?thesis
      using delete_result_chain_at [OF assms(1) that assms(2)] True by simp
  qed
  then show ?thesis
    using assms(1) delete_result_n_pairs [OF assms]
    by (simp add: hm_inv_def)
qed

lemma delete_result_lookup:
  assumes "hm_inv m" "hm_lookup m k = Some w"
  shows "hm_lookup (delete_result m k) = (hm_lookup m)(k := None)"
proof
  fix k'
  have c: "chain_at (delete_result m k) (slot m k') =
        (if slot m k' = slot m k then remove1 (k, w) (chain_at m (slot m k))
         else chain_at m (slot m k'))"
    using delete_result_chain_at [OF assms(1) hm_inv_slot(2) [OF assms(1), of k'] assms(2)]
    by (simp add: chain_at_def)
  show "hm_lookup (delete_result m k) k' = ((hm_lookup m)(k := None)) k'"
    using hm_inv_chain(2) [OF assms(1) hm_inv_slot(2) [OF assms(1), of k]] assms(2)
    by (auto simp: hm_lookup_def c map_of_remove1)
qed

lemma chains_all_Some:
  "(\<forall>b \<in> set bs. b \<noteq> None) \<Longrightarrow>
   chains bs = Inr (concat (map (\<lambda>b. case b of None \<Rightarrow> [] | Some chain \<Rightarrow> chain) bs))"
  by (induction bs) (auto simp: iter_bucket_def)

lemma items_inv:
  assumes "hm_inv m"
  shows "HashMap_items m = Inr (the_items m)"
proof -
  have "\<forall>b \<in> set (items (buckets m)). b \<noteq> None"
    using hm_inv_chain(1) [OF assms] by (auto simp: in_set_conv_nth n_buckets_def)
  then show ?thesis
    by (simp add: HashMap_items_def Array_iter_def the_items_def chains_all_Some)
qed

lemma distinct_keys_concat:
  "(\<forall>i < length cs. distinct (map fst (cs ! i)) \<and> (\<forall>p \<in> set (cs ! i). f (fst p) = n + i))
   \<Longrightarrow> distinct (map fst (concat cs))"
proof (induction cs arbitrary: n)
  case Nil then show ?case by simp
next
  case (Cons c cs)
  have 1: "\<forall>i < length cs. distinct (map fst (cs ! i)) \<and> (\<forall>p \<in> set (cs ! i). f (fst p) = Suc n + i)"
  proof (intro allI impI)
    fix i assume "i < length cs"
    then have "Suc i < length (c # cs)" by simp
    with Cons.prems have "distinct (map fst ((c # cs) ! Suc i)) \<and>
        (\<forall>p \<in> set ((c # cs) ! Suc i). f (fst p) = n + Suc i)" by blast
    then show "distinct (map fst (cs ! i)) \<and> (\<forall>p \<in> set (cs ! i). f (fst p) = Suc n + i)"
      by simp
  qed
  have "0 < length (c # cs)" by simp
  with Cons.prems have "distinct (map fst ((c # cs) ! 0)) \<and>
        (\<forall>p \<in> set ((c # cs) ! 0). f (fst p) = n + 0)" by blast
  then have 2: "distinct (map fst c)" "\<forall>p \<in> set c. f (fst p) = n" by simp_all
  have 3: "fst p \<noteq> fst q" if "p \<in> set c" "q \<in> set (concat cs)" for p q
  proof -
    from that(2) obtain c' where "c' \<in> set cs" "q \<in> set c'" by auto
    then obtain i where "i < length cs" "q \<in> set (cs ! i)"
      by (auto simp: in_set_conv_nth)
    with 1 have "f (fst q) = Suc n + i" by blast
    moreover from 2(2) that(1) have "f (fst p) = n" by blast
    ultimately show ?thesis by auto
  qed
  have "fst ` set c \<inter> fst ` set (concat cs) = {}"
    using 3 by (auto simp del: set_concat)
  with Cons.IH [OF 1] 2(1) show ?case by simp
qed

lemma the_items_upt: "the_items m = concat (map (chain_at m) [0..<n_buckets m])"
proof -
  have "map (\<lambda>b. case b of None \<Rightarrow> [] | Some chain \<Rightarrow> chain) (items (buckets m))
        = map (chain_at m) [0..<n_buckets m]"
    by (rule nth_equalityI) (simp_all add: n_buckets_def chain_at_def)
  then show ?thesis by (simp add: the_items_def)
qed

lemma the_items_distinct:
  assumes "hm_inv m"
  shows "distinct (map fst (the_items m))"
  unfolding the_items_upt
  by (rule distinct_keys_concat [where f = "slot m" and n = 0])
     (use hm_inv_chain(2,3) [OF assms] in simp)

lemma the_items_set:
  assumes "hm_inv m"
  shows "(k, v) \<in> set (the_items m) \<longleftrightarrow> hm_lookup m k = Some v"
proof
  assume "(k, v) \<in> set (the_items m)"
  then obtain i where i: "i < n_buckets m" "(k, v) \<in> set (chain_at m i)"
    by (auto simp: the_items_upt)
  with hm_inv_chain(3) [OF assms i(1), of "(k, v)"] have "slot m k = i" by simp
  with i hm_inv_chain(2) [OF assms i(1)] show "hm_lookup m k = Some v"
    by (simp add: hm_lookup_def)
next
  assume "hm_lookup m k = Some v"
  then have "(k, v) \<in> set (chain_at m (slot m k))"
    by (simp add: hm_lookup_def map_of_SomeD)
  with hm_inv_slot(2) [OF assms, of k] show "(k, v) \<in> set (the_items m)"
    by (auto simp: the_items_upt)
qed

lemma the_items_map_of:
  assumes "hm_inv m"
  shows "map_of (the_items m) = hm_lookup m"
proof
  fix k
  show "map_of (the_items m) k = hm_lookup m k"
    using the_items_set [OF assms, of k] the_items_distinct [OF assms]
    by (cases "map_of (the_items m) k"; cases "hm_lookup m k")
       (auto dest: map_of_SomeD simp: map_of_eq_None_iff image_iff)
qed

lemma the_items_length: "length (the_items m) = n_pairs m"
  by (simp add: the_items_def n_pairs_def length_concat comp_def)
     (rule arg_cong [where f = sum_list], auto split: option.splits)

lemma n_pairs_card:
  assumes "hm_inv m"
  shows "n_pairs m = card (dom (hm_lookup m))"
proof -
  have "card (dom (hm_lookup m)) = card (set (map fst (the_items m)))"
    by (simp add: the_items_map_of [OF assms, symmetric] dom_map_of_conv_image_fst)
  also have "\<dots> = length (the_items m)"
    using distinct_card [OF the_items_distinct [OF assms]] by simp
  finally show ?thesis by (simp add: the_items_length)
qed

lemma fill_buckets_upt:
  "k + d = n \<Longrightarrow> items b = replicate k (Some []) @ replicate d None \<Longrightarrow>
   fill_buckets b [k..<n] = Inr (b\<lparr>items := replicate n (Some [])\<rparr>)"
proof (induction d arbitrary: k b)
  case 0
  then show ?case by simp
next
  case (Suc d)
  from Suc.prems have kn: "k < n" by simp
  let ?b = "b\<lparr>items := replicate (Suc k) (Some []) @ replicate d None\<rparr>"
  have "(items b)[k := Some []] = replicate (Suc k) (Some []) @ replicate d None"
    using Suc.prems(2) by (simp add: list_update_append replicate_append_same)
  with Suc.prems have s: "Array_setitem b (int k) (Some []) = Inr ?b"
    by (simp add: Array_setitem_def)
  have "fill_buckets ?b [Suc k..<n] = Inr (?b\<lparr>items := replicate n (Some [])\<rparr>)"
    using Suc.prems by (intro Suc.IH) simp_all
  with s kn show ?case by (simp add: upt_conv_Cons)
qed

lemma HashMap_init_eq: "HashMap_init c (Some h) t = Inr (empty_map c h :: ('k, 'v) HashMap)"
proof -
  have "fill_buckets (Array_init c None) [0..<nat c]
        = Inr ((Array_init c None)\<lparr>items := replicate (nat c) (Some ([] :: ('k \<times> 'v) list))\<rparr>)"
    by (rule fill_buckets_upt [where d = "nat c"]) (simp_all add: Array_init_def)
  then show ?thesis by (simp add: HashMap_init_def empty_map_def Array_init_def)
qed

lemma empty_map_fields [simp]:
  "n_buckets (empty_map c h) = nat c"
  "hash_function (empty_map c h) = h"
  "load_factor_threshold (empty_map c h) = default_load_factor_threshold"
  "count (empty_map c h) = 0"
  "n_pairs (empty_map c h) = 0"
  "logical_size (buckets (empty_map c h)) = c"
  by (simp_all add: empty_map_def n_buckets_def n_pairs_def)

lemma empty_map_inv: "0 < c \<Longrightarrow> hash_ok h \<Longrightarrow> hm_inv (empty_map c h)"
  by (simp add: hm_inv_def) (simp add: empty_map_def)

lemma empty_map_lookup:
  assumes "0 < c" "hash_ok h"
  shows "hm_lookup (empty_map c h :: ('k, 'v) HashMap) k = None"
proof -
  let ?e = "empty_map c h :: ('k, 'v) HashMap"
  have "slot ?e k < nat c"
    using hm_inv_slot(2) [OF empty_map_inv [OF assms], of k] by simp
  then have "chain_at ?e (slot ?e k) = []"
    by (simp add: chain_at_def) (simp add: empty_map_def)
  then show ?thesis by (simp add: hm_lookup_def)
qed

lemma load_factor_inv:
  "hm_inv m \<Longrightarrow> load_factor m = Inr (real_of_int (count m) / real (n_buckets m))"
  by (simp add: load_factor_def capacity_inv) (simp add: hm_inv_def)

lemma setitem_no_resize:
  assumes "hm_inv m" "\<not> needs_resize m"
  shows "HashMap_setitem m k v = Inr (insert_result m k v)"
  using assms
  by (simp add: HashMap_setitem.simps load_factor_inv needs_resize_def insert_pair_inv)

lemma insert_all_fields [simp]:
  "n_buckets (insert_all kvs m) = n_buckets m"
  "hash_function (insert_all kvs m) = hash_function m"
  "load_factor_threshold (insert_all kvs m) = load_factor_threshold m"
  by (induction kvs m rule: insert_all.induct) simp_all

lemma insert_all_inv: "hm_inv m \<Longrightarrow> hm_inv (insert_all kvs m)"
  by (induction kvs m rule: insert_all.induct) (simp_all add: insert_result_inv)

lemma insert_all_lookup:
  "hm_inv m \<Longrightarrow> distinct (map fst kvs) \<Longrightarrow>
   hm_lookup (insert_all kvs m) = hm_lookup m ++ map_of kvs"
proof (induction kvs m rule: insert_all.induct)
  case (1 m)
  then show ?case by simp
next
  case (2 k v kvs m)
  from "2.prems" have inv': "hm_inv (insert_result m k v)" and d: "distinct (map fst kvs)"
    by (simp_all add: insert_result_inv)
  have "hm_lookup (insert_all kvs (insert_result m k v))
        = hm_lookup (insert_result m k v) ++ map_of kvs"
    using inv' d by (rule "2.IH")
  then have 1: "hm_lookup (insert_all kvs (insert_result m k v)) = (hm_lookup m)(k \<mapsto> v) ++ map_of kvs"
    by (simp only: insert_result_lookup [OF "2.prems"(1)])
  from "2.prems" have n: "map_of kvs k = None" by (simp add: map_of_eq_None_iff)
  have "(hm_lookup m)(k \<mapsto> v) ++ map_of kvs = hm_lookup m ++ map_of ((k, v) # kvs)"
    by (rule ext) (simp add: map_add_def n split: option.splits)
  with 1 show ?case by (simp only: insert_all.simps)
qed

lemma insert_all_count_le:
  "hm_inv m \<Longrightarrow> count (insert_all kvs m) \<le> count m + int (length kvs)"
proof (induction kvs m rule: insert_all.induct)
  case (1 m) then show ?case by simp
next
  case (2 k v kvs m)
  from 2 have "count (insert_all kvs (insert_result m k v)) \<le> count (insert_result m k v) + int (length kvs)"
    by (simp add: insert_result_inv)
  then show ?case by (simp split: if_splits)
qed

lemma insert_all_count_fresh:
  "hm_inv m \<Longrightarrow> distinct (map fst kvs) \<Longrightarrow> \<forall>k \<in> fst ` set kvs. hm_lookup m k = None \<Longrightarrow>
   count (insert_all kvs m) = count m + int (length kvs) \<and>
   n_pairs (insert_all kvs m) = n_pairs m + length kvs"
proof (induction kvs m rule: insert_all.induct)
  case (1 m) then show ?case by simp
next
  case (2 k v kvs m)
  have "\<forall>k' \<in> fst ` set kvs. hm_lookup (insert_result m k v) k' = None"
    using 2 by (auto simp: insert_result_lookup image_iff)
  with 2 show ?case
    by (simp add: insert_result_inv insert_result_n_pairs)
qed

lemma rehash_items_inv:
  "hm_inv m \<Longrightarrow>
   real_of_int (count m) + real (length kvs) \<le> load_factor_threshold m * real (n_buckets m) \<Longrightarrow>
   rehash_items kvs m = Inr (insert_all kvs m)"
proof (induction kvs m rule: insert_all.induct)
  case (1 m)
  then show ?case by simp
next
  case (2 k v kvs m)
  from 2(2) have n: "0 < n_buckets m" by (simp add: hm_inv_def)
  from 2(3) have "real_of_int (count m) \<le> load_factor_threshold m * real (n_buckets m)" by simp
  with n have "\<not> needs_resize m"
    by (simp add: needs_resize_def pos_divide_le_eq not_less)
  with 2(2) have s: "HashMap_setitem m k v = Inr (insert_result m k v)"
    by (rule setitem_no_resize)
  have "rehash_items kvs (insert_result m k v) = Inr (insert_all kvs (insert_result m k v))"
    using 2(2,3) by (intro 2(1)) (auto simp: insert_result_inv)
  with s show ?case by simp
qed

lemma resize_and_rehash_inv:
  assumes "hm_inv m" "0 < p" "real (n_pairs m) \<le> default_load_factor_threshold * real_of_int p"
  shows "resize_and_rehash m p (hash_function m) = Inr (resized m p)"
proof -
  from assms(1) have "hash_ok (hash_function m)" by (simp add: hm_inv_def)
  with assms(2) have "hm_inv (empty_map p (hash_function m) :: ('a, 'b) HashMap)"
    by (rule empty_map_inv)
  moreover have "real_of_int (count (empty_map p (hash_function m) :: ('a, 'b) HashMap))
      + real (length (the_items m))
      \<le> load_factor_threshold (empty_map p (hash_function m) :: ('a, 'b) HashMap)
        * real (n_buckets (empty_map p (hash_function m) :: ('a, 'b) HashMap))"
    using assms(2,3) by (simp add: the_items_length)
  ultimately have "rehash_items (the_items m) (empty_map p (hash_function m)) = Inr (resized m p)"
    unfolding resized_def by (rule rehash_items_inv)
  then show ?thesis
    by (simp add: resize_and_rehash.simps HashMap_init_eq items_inv [OF assms(1)])
qed

lemma resized_props:
  assumes "hm_inv m" "0 < p"
  shows "hm_inv (resized m p)" "hm_lookup (resized m p) = hm_lookup m"
    "n_buckets (resized m p) = nat p" "hash_function (resized m p) = hash_function m"
    "count (resized m p) = int (n_pairs m)" "n_pairs (resized m p) = n_pairs m"
proof -
  from assms(1) have "hash_ok (hash_function m)" by (simp add: hm_inv_def)
  note h = this
  with assms(2) have e: "hm_inv (empty_map p (hash_function m) :: ('a, 'b) HashMap)"
    by (rule empty_map_inv)
  then show "hm_inv (resized m p)" by (simp add: resized_def insert_all_inv)
  show "hm_lookup (resized m p) = hm_lookup m"
    using insert_all_lookup [OF e the_items_distinct [OF assms(1)]]
    by (simp add: resized_def the_items_map_of [OF assms(1)] fun_eq_iff map_add_def
        empty_map_lookup [OF assms(2) h] split: option.splits)
  show "n_buckets (resized m p) = nat p" "hash_function (resized m p) = hash_function m"
    by (simp_all add: resized_def)
  show "count (resized m p) = int (n_pairs m)" "n_pairs (resized m p) = n_pairs m"
    using insert_all_count_fresh [OF e the_items_distinct [OF assms(1)]]
    by (simp_all add: resized_def the_items_length empty_map_lookup [OF assms(2) h])
qed

lemma first_prime_from_prime: "is_prime (first_prime_from k)"
  by (induction k rule: first_prime_from.induct) (subst first_prime_from.simps, simp)

lemma first_prime_from_ge: "k \<le> first_prime_from k"
proof (induction k rule: first_prime_from.induct)
  case (1 k)
  show ?case by (subst first_prime_from.simps) (use 1 in \<open>auto simp: Suc_leD\<close>)
qed

lemma first_prime_from_least: "is_prime q \<Longrightarrow> k \<le> q \<Longrightarrow> first_prime_from k \<le> q"
proof (induction k rule: first_prime_from.induct)
  case (1 k)
  show ?case
  proof (cases "is_prime k")
    case True then show ?thesis using 1 by (subst first_prime_from.simps) simp
  next
    case False
    with 1 have "Suc k \<le> q" by (cases "q = k") auto
    with 1 False show ?thesis by (subst first_prime_from.simps) simp
  qed
qed

lemma nextprime_gt: "n < nextprime n"
  using first_prime_from_ge [of "nat (n + 1)"] by (simp add: nextprime_def)

lemma nextprime_prime: "is_prime (nat (nextprime n))"
  by (simp add: nextprime_def first_prime_from_prime)

lemma nextprime_least: "is_prime q \<Longrightarrow> n < int q \<Longrightarrow> nextprime n \<le> int q"
  using first_prime_from_least [of q "nat (n + 1)"] by (simp add: nextprime_def)

lemma nextprime_pos: "0 < nextprime n"
  using nextprime_prime [of n] by (simp add: is_prime_iff)

lemma count_nonneg: "hm_inv m \<Longrightarrow> 0 \<le> count m"
  by (simp add: hm_inv_def)

lemma new_bucket_capacity_inv:
  assumes "hm_inv m"
  shows "new_bucket_capacity m = Inr (new_cap m)"
proof -
  from assms have t: "load_factor_threshold m = default_load_factor_threshold"
    by (simp add: hm_inv_def)
  have "0 \<le> real_of_int (count m) / default_load_factor_threshold"
    using count_nonneg [OF assms] by (simp add: default_load_factor_threshold_def)
  then show ?thesis
    by (simp add: new_bucket_capacity_def new_cap_def py_int_def t)
       (simp add: default_load_factor_threshold_def)
qed

lemma new_cap_bound:
  assumes "hm_inv m"
  shows "real (n_pairs m) \<le> default_load_factor_threshold * real_of_int (new_cap m)"
proof -
  let ?x = "real_of_int (count m) / default_load_factor_threshold"
  have "\<lfloor>?x\<rfloor> < new_cap m" unfolding new_cap_def by (rule nextprime_gt)
  then have "\<lfloor>?x\<rfloor> + 1 \<le> new_cap m" by simp
  then have "real_of_int (\<lfloor>?x\<rfloor> + 1) \<le> real_of_int (new_cap m)" by (simp only: of_int_le_iff)
  moreover have "?x < real_of_int (\<lfloor>?x\<rfloor> + 1)" by linarith
  ultimately have "?x < real_of_int (new_cap m)" by linarith
  then have "real_of_int (count m) < default_load_factor_threshold * real_of_int (new_cap m)"
    by (simp add: default_load_factor_threshold_def field_simps)
  moreover from assms have "real (n_pairs m) \<le> real_of_int (count m)"
    by (simp add: hm_inv_def)
  ultimately show ?thesis by linarith
qed

lemma new_cap_pos: "0 < new_cap m"
  by (simp add: new_cap_def nextprime_pos)

lemma after_resize_props:
  assumes "hm_inv m"
  shows "hm_inv (after_resize m)" "hm_lookup (after_resize m) = hm_lookup m"
    "hash_function (after_resize m) = hash_function m"
    "n_pairs (after_resize m) = n_pairs m"
    "count (after_resize m) = (if needs_resize m then int (n_pairs m) else count m)"
    "n_buckets (after_resize m) = (if needs_resize m then nat (new_cap m) else n_buckets m)"
  using assms resized_props [OF assms new_cap_pos [of m]]
  by (simp_all add: after_resize_def)

lemma setitem_inv:
  assumes "hm_inv m"
  shows "HashMap_setitem m k v = Inr (setitem_result m k v)"
proof (cases "needs_resize m")
  case False
  with assms show ?thesis
    by (simp add: setitem_no_resize setitem_result_def after_resize_def)
next
  case True
  have r: "resize_and_rehash m (new_cap m) (hash_function m) = Inr (resized m (new_cap m))"
    using assms new_cap_pos new_cap_bound [OF assms] by (rule resize_and_rehash_inv)
  have "hm_inv (resized m (new_cap m))"
    using assms new_cap_pos by (rule resized_props(1))
  then have "insert_pair (resized m (new_cap m)) k v = Inr (insert_result (resized m (new_cap m)) k v)"
    by (rule insert_pair_inv)
  with True r show ?thesis
    using assms
    by (simp add: HashMap_setitem.simps load_factor_inv new_bucket_capacity_inv
        setitem_result_def after_resize_def needs_resize_def [symmetric])
qed

lemma setitem_result_props:
  assumes "hm_inv m"
  shows "hm_inv (setitem_result m k v)"
    "hm_lookup (setitem_result m k v) = (hm_lookup m)(k \<mapsto> v)"
    "hash_function (setitem_result m k v) = hash_function m"
    "n_pairs (setitem_result m k v) = n_pairs m + (if hm_lookup m k = None then 1 else 0)"
    "count (setitem_result m k v) =
       (if needs_resize m then int (n_pairs m) else count m) + (if hm_lookup m k = None then 1 else 0)"
    "n_buckets (setitem_result m k v) = (if needs_resize m then nat (new_cap m) else n_buckets m)"
  using after_resize_props [OF assms]
  by (simp_all add: setitem_result_def insert_result_inv insert_result_lookup insert_result_n_pairs)

lemma empty_map_lookup_eq:
  "0 < c \<Longrightarrow> hash_ok h \<Longrightarrow> hm_lookup (empty_map c h) = Map.empty"
  by (rule ext) (rule empty_map_lookup)

lemma keys_inv: "hm_inv m \<Longrightarrow> HashMap_keys m = Inr (map fst (the_items m))"
  by (simp add: HashMap_keys_def items_inv)

lemma the_items_empty: "hm_inv m \<Longrightarrow> hm_lookup m = Map.empty \<Longrightarrow> the_items m = []"
  using n_pairs_card [of m] the_items_length [of m] by simp

lemma nextprime_5: "nextprime 5 = 7"
  by (simp add: nextprime_def first_prime_from.simps is_prime_def)

lemma load_exceeded_iff:
  assumes "hm_inv m"
  shows "(\<exists>lf. load_factor m = Inr lf \<and> load_factor_threshold m < lf) \<longleftrightarrow> needs_resize m"
  by (simp add: load_factor_inv [OF assms] needs_resize_def)

lemma new_cap_smallest:
  assumes "hm_inv m"
  shows "smallest_prime_above \<lfloor>real_of_int (count m) / load_factor_threshold m\<rfloor> (new_cap m)"
proof -
  from assms have t: "load_factor_threshold m = default_load_factor_threshold"
    by (simp add: hm_inv_def)
  show ?thesis
    unfolding smallest_prime_above_def t new_cap_def
    using nextprime_pos nextprime_prime nextprime_gt nextprime_least
    by (auto intro: less_imp_le)
qed

lemma capacity_resized:
  assumes "hm_inv m" "0 < p"
  shows "capacity (resized m p) = Inr p"
  using capacity_inv [OF resized_props(1) [OF assms]] resized_props(3) [OF assms] assms(2)
  by simp

lemma threshold_inv: "hm_inv m \<Longrightarrow> load_factor_threshold m = 0.6"
  by (simp add: hm_inv_def default_load_factor_threshold_def)

lemma three_in_four_built:
  "bindE (HashMap_init 4 (Some (default_hash_function Scalar)) 0.6) (\<lambda>m.
   bindE (HashMap_setitem m 1 ''a'') (\<lambda>m.
   bindE (HashMap_setitem m 2 ''b'') (\<lambda>m. HashMap_setitem m 3 ''c''))) = Inr three_in_four"
  by (simp add: HashMap_init_eq setitem_inv setitem_result_props(1) empty_map_inv hash_ok_default
      three_in_four_def)

lemma three_in_four_props:
  "hm_inv three_in_four" "count three_in_four = 3" "n_buckets three_in_four = 4"
  "hm_lookup three_in_four = [1 \<mapsto> ''a'', 2 \<mapsto> ''b'', 3 \<mapsto> ''c'']"
proof -
  let ?m0 = "empty_map 4 (default_hash_function Scalar) :: (int, string) HashMap"
  let ?m1 = "setitem_result ?m0 1 ''a''"
  let ?m2 = "setitem_result ?m1 2 ''b''"
  have i0: "hm_inv ?m0" by (simp add: empty_map_inv hash_ok_default)
  have l0: "hm_lookup ?m0 = Map.empty" by (simp add: empty_map_lookup_eq hash_ok_default)
  have r0: "\<not> needs_resize ?m0" by (simp add: needs_resize_def default_load_factor_threshold_def)
  note p1 = setitem_result_props [OF i0, of 1 "''a''"]
  have c1: "count ?m1 = 1" "n_buckets ?m1 = 4" "hm_lookup ?m1 = [1 \<mapsto> ''a'']"
    using p1 l0 r0 by simp_all
  have r1: "\<not> needs_resize ?m1"
    by (simp add: needs_resize_def c1 threshold_inv [OF p1(1)])
  note p2 = setitem_result_props [OF p1(1), of 2 "''b''"]
  have c2: "count ?m2 = 2" "n_buckets ?m2 = 4" "hm_lookup ?m2 = [1 \<mapsto> ''a'', 2 \<mapsto> ''b'']"
    using p2 c1 r1 by simp_all
  have r2: "\<not> needs_resize ?m2"
    by (simp add: needs_resize_def c2 threshold_inv [OF p2(1)])
  note p3 = setitem_result_props [OF p2(1), of 3 "''c''"]
  show "hm_inv three_in_four" "count three_in_four = 3" "n_buckets three_in_four = 4"
    "hm_lookup three_in_four = [1 \<mapsto> ''a'', 2 \<mapsto> ''b'', 3 \<mapsto> ''c'']"
    unfolding three_in_four_def using p3 c2 r2 by simp_all
qed

section \<open>Graph: the operations on the invariant\<close>

lemma fill_Array_eq:
  "i + length xs \<le> length (items a) \<Longrightarrow>
   fill_Array a i xs =
     Inr (a\<lparr>items := take i (items a) @ map Some xs @ drop (i + length xs) (items a)\<rparr>)"
proof (induction xs arbitrary: a i)
  case Nil
  then show ?case by simp
next
  case (Cons x xs)
  let ?a = "a\<lparr>items := (items a)[i := Some x]\<rparr>"
  from Cons.prems have i: "i < length (items a)" by simp
  then have s: "Array_setitem a (int i) (Some x) = Inr ?a" by (simp add: Array_setitem_def)
  have "fill_Array ?a (Suc i) xs =
        Inr (?a\<lparr>items := take (Suc i) (items ?a) @ map Some xs @ drop (Suc i + length xs) (items ?a)\<rparr>)"
    using Cons.prems by (intro Cons.IH) simp
  moreover have "take (Suc i) ((items a)[i := Some x]) = take i (items a) @ [Some x]"
    using i by (simp add: take_Suc_conv_app_nth)
  ultimately show ?case using s by simp
qed

lemma fill_Array_init:
  "length xs \<le> nat n \<Longrightarrow>
   fill_Array (Array_init n None) 0 xs =
     Inr \<lparr>items = map Some xs @ replicate (nat n - length xs) None, physical_size = n,
          logical_size = n, default_item_value = None\<rparr>"
  by (simp add: fill_Array_eq Array_init_def)

lemma fill_Array_exact:
  "fill_Array (Array_init (int (length xs)) None) 0 xs =
     Inr \<lparr>items = map Some xs, physical_size = int (length xs),
          logical_size = int (length xs), default_item_value = None\<rparr>"
  by (simp add: fill_Array_init)

lemma Graph_init_eq:
  "Graph_init b = Inr \<lparr>vertices_map = empty_map 7 (default_hash_function b), store = []\<rparr>"
  by (simp add: Graph_init_def HashMap_init_eq)

lemma endpoint_inv:
  assumes "hm_inv (vertices_map g)"
  shows "endpoint g d = Inr (endpoint_result g d)"
  using assms
  by (cases "hm_lookup (vertices_map g) d")
     (simp_all add: endpoint_def endpoint_result_def contains_inv getitem_inv Vertex_init_def
       setitem_inv)

lemma endpoint_result_inv:
  "hm_inv (vertices_map g) \<Longrightarrow> hm_inv (vertices_map (snd (endpoint_result g d)))"
  by (simp add: endpoint_result_def setitem_result_props split: option.splits)

lemma add_edge_inv:
  assumes "hm_inv (vertices_map g)"
  shows "add_edge g v1 v2 ed w = Inr (add_edge_result g v1 v2 ed w)"
proof -
  obtain r1 g1 where e1: "endpoint_result g v1 = (r1, g1)" by (cases "endpoint_result g v1")
  with endpoint_result_inv [OF assms, of v1] have "hm_inv (vertices_map g1)" by simp
  then have "endpoint g1 v2 = Inr (endpoint_result g1 v2)" by (rule endpoint_inv)
  with e1 show ?thesis
    by (simp add: add_edge_def endpoint_inv [OF assms] add_edge_result_def split: prod.splits)
qed

lemma edges_from_inv:
  assumes "hm_inv (vertices_map g)"
  shows "edges_from g d =
     (case hm_lookup (vertices_map g) d of
        None \<Rightarrow> Inl ValueError
      | Some r \<Rightarrow>
          Inr \<lparr>items = map Some (edges (store g ! r)),
               physical_size = int (length (edges (store g ! r))),
               logical_size = int (length (edges (store g ! r))),
               default_item_value = None\<rparr>)"
  by (cases "hm_lookup (vertices_map g) d")
     (simp_all add: edges_from_def contains_inv [OF assms] getitem_inv [OF assms] fill_Array_exact)

lemma find_endpoints_raises:
  "find_endpoints (k # ks) v1 v2 found = Inl AttributeError"
  by (cases found) (simp add: key_attribute_def)

lemma remove_edge_never_succeeds: "\<exists>e. remove_edge g v1 v2 ed = Inl e"
proof (cases "HashMap_keys (vertices_map g)")
  case (Inl e)
  then show ?thesis by (simp add: remove_edge_def)
next
  case (Inr ks)
  then show ?thesis
    by (cases ks) (simp_all add: remove_edge_def find_endpoints_raises)
qed

lemma remove_edge_inv:
  assumes "hm_inv (vertices_map g)" "hm_lookup (vertices_map g) d = Some r"
  shows "remove_edge g v1 v2 ed = Inl AttributeError"
proof -
  from assms have "(d, r) \<in> set (the_items (vertices_map g))" by (simp add: the_items_set)
  then obtain k ks where "map fst (the_items (vertices_map g)) = k # ks"
    by (cases "the_items (vertices_map g)") auto
  then show ?thesis
    by (simp add: remove_edge_def keys_inv [OF assms(1)] find_endpoints_raises)
qed

lemma map_AB_props:
  "hm_inv (map_AB b)" "hm_lookup (map_AB b) = [''A'' \<mapsto> 0, ''B'' \<mapsto> Suc 0]"
proof -
  let ?m0 = "empty_map 7 (default_hash_function b) :: (string, ref) HashMap"
  have i0: "hm_inv ?m0" by (simp add: empty_map_inv hash_ok_default)
  have l0: "hm_lookup ?m0 = Map.empty" by (simp add: empty_map_lookup_eq hash_ok_default)
  note p1 = setitem_result_props [OF i0, of "''A''" 0]
  have l1: "hm_lookup (setitem_result ?m0 ''A'' 0) = [''A'' \<mapsto> 0]" using p1(2) l0 by simp
  note p2 = setitem_result_props [OF p1(1), of "''B''" "Suc 0"]
  show "hm_inv (map_AB b)" unfolding map_AB_def by (rule p2(1))
  show "hm_lookup (map_AB b) = [''A'' \<mapsto> 0, ''B'' \<mapsto> Suc 0]"
    unfolding map_AB_def using p2(2) l1 by simp
qed

lemma graph_x_built:
  "bindE (Graph_init b) (\<lambda>g. add_edge g ''A'' ''B'' ''x'' 5) = Inr (graph_x b)"
proof -
  let ?m0 = "empty_map 7 (default_hash_function b) :: (string, ref) HashMap"
  have i0: "hm_inv ?m0" by (simp add: empty_map_inv hash_ok_default)
  have l0: "hm_lookup ?m0 = Map.empty" by (simp add: empty_map_lookup_eq hash_ok_default)
  have l1: "hm_lookup (setitem_result ?m0 ''A'' 0) = [''A'' \<mapsto> 0]"
    using setitem_result_props(2) [OF i0, of "''A''" 0] l0 by simp
  show ?thesis
    by (simp add: Graph_init_eq add_edge_inv i0 add_edge_result_def endpoint_result_def l0 l1
        Vertex_add_edge_def LinkedList_append_def graph_x_def map_AB_def edge_x_def)
qed

lemma graph_xy_built: "add_edge (graph_x b) ''A'' ''B'' ''y'' 7 = Inr (graph_xy b)"
  by (simp add: add_edge_inv add_edge_result_def endpoint_result_def map_AB_props
      Vertex_add_edge_def LinkedList_append_def graph_x_def graph_xy_def edge_y_def)

lemma edges_from_graph_x:
  "edges_from (graph_x b) ''A'' =
     Inr \<lparr>items = [Some edge_x], physical_size = 1, logical_size = 1, default_item_value = None\<rparr>"
  by (simp add: edges_from_inv graph_x_def map_AB_props)

lemma edges_from_graph_xy:
  "edges_from (graph_xy b) ''A'' =
     Inr \<lparr>items = [Some edge_x, Some edge_y], physical_size = 2, logical_size = 2,
          default_item_value = None\<rparr>"
  by (simp add: edges_from_inv graph_xy_def map_AB_props)

section \<open>Dijkstra: the engine on the invariant\<close>

lemma hm_exact_inv: "hm_exact m \<Longrightarrow> hm_inv m"
  by (simp add: hm_exact_def)

lemma empty_map_exact: "0 < c \<Longrightarrow> hash_ok h \<Longrightarrow> hm_exact (empty_map c h)"
  by (simp add: hm_exact_def empty_map_inv)

lemma setitem_result_exact: "hm_exact m \<Longrightarrow> hm_exact (setitem_result m k v)"
  by (simp add: hm_exact_def setitem_result_props)

lemma exact_count: "hm_exact m \<Longrightarrow> count m = int (card (dom (hm_lookup m)))"
  by (simp add: hm_exact_def n_pairs_card)

lemma values_inv: "hm_inv m \<Longrightarrow> HashMap_values m = Inr (map snd (the_items m))"
  by (simp add: HashMap_values_def items_inv)

lemma len_inv: "hm_inv m \<Longrightarrow> HashMap_len m = Inr (count m)"
  using count_nonneg [of m] by (simp add: HashMap_len_def)

lemma vertices_inv:
  assumes "hm_inv (vertices_map g)"
  shows "vertices g =
     Inr \<lparr>items = map Some (vertex_list g)
                   @ replicate (nat (count (vertices_map g)) - n_pairs (vertices_map g)) None,
          physical_size = count (vertices_map g), logical_size = count (vertices_map g),
          default_item_value = None\<rparr>"
proof -
  have "length (vertex_list g) = n_pairs (vertices_map g)"
    by (simp add: vertex_list_def the_items_length)
  moreover from assms have "int (n_pairs (vertices_map g)) \<le> count (vertices_map g)"
    by (simp add: hm_inv_def)
  ultimately show ?thesis
    using fill_Array_init [of "vertex_list g" "count (vertices_map g)"]
    by (simp add: vertices_def len_inv [OF assms] values_inv [OF assms] vertex_list_def)
qed

lemma collect_airports_None:
  "hm_inv m \<Longrightarrow> collect_airports (map Some vs @ None # rest) m = Inl AttributeError"
  by (induction vs arbitrary: m) (simp_all add: setitem_inv setitem_result_props)

lemma collect_airports_inv:
  "hm_exact m \<Longrightarrow>
   \<exists>m'. collect_airports (map Some vs) m = Inr m' \<and> hm_exact m' \<and>
        dom (hm_lookup m') = dom (hm_lookup m) \<union> (\<lambda>v. airport_code (vertex_data v)) ` set vs \<and>
        (\<forall>c a. hm_lookup m' c = Some a \<longrightarrow>
           hm_lookup m c = Some a \<or> (a \<in> vertex_data ` set vs \<and> airport_code a = c))"
proof (induction vs arbitrary: m)
  case Nil
  then show ?case by simp
next
  case (Cons v vs)
  let ?m1 = "setitem_result m (airport_code (vertex_data v)) (vertex_data v)"
  from Cons.prems have i: "hm_inv m" by (rule hm_exact_inv)
  have e1: "hm_exact ?m1" using Cons.prems by (rule setitem_result_exact)
  have l1: "hm_lookup ?m1 = (hm_lookup m)(airport_code (vertex_data v) \<mapsto> vertex_data v)"
    using i by (rule setitem_result_props(2))
  from Cons.IH [OF e1] obtain m' where m': "collect_airports (map Some vs) ?m1 = Inr m'"
    "hm_exact m'"
    "dom (hm_lookup m') = dom (hm_lookup ?m1) \<union> (\<lambda>v. airport_code (vertex_data v)) ` set vs"
    "\<forall>c a. hm_lookup m' c = Some a \<longrightarrow>
           hm_lookup ?m1 c = Some a \<or> (a \<in> vertex_data ` set vs \<and> airport_code a = c)"
    by blast
  have "collect_airports (map Some (v # vs)) m = Inr m'"
    using m'(1) by (simp add: setitem_inv [OF i])
  moreover have "dom (hm_lookup m') =
      dom (hm_lookup m) \<union> (\<lambda>v. airport_code (vertex_data v)) ` set (v # vs)"
    using m'(3) by (simp add: l1)
  moreover have "\<forall>c a. hm_lookup m' c = Some a \<longrightarrow>
           hm_lookup m c = Some a \<or> (a \<in> vertex_data ` set (v # vs) \<and> airport_code a = c)"
  proof (intro allI impI)
    fix c a assume "hm_lookup m' c = Some a"
    with m'(4) have "hm_lookup ?m1 c = Some a \<or> (a \<in> vertex_data ` set vs \<and> airport_code a = c)"
      by blast
    then show "hm_lookup m c = Some a \<or> (a \<in> vertex_data ` set (v # vs) \<and> airport_code a = c)"
      by (auto simp: l1 split: if_splits)
  qed
  ultimately show ?case using m'(2) by blast
qed

lemma init_tables_inv:
  "hm_exact ds \<Longrightarrow> hm_exact cn \<Longrightarrow>
   \<exists>ds' cn'. init_tables (map Some vs) (ds, cn) = Inr (ds', cn') \<and> hm_exact ds' \<and> hm_exact cn' \<and>
      hm_lookup ds' = (\<lambda>a. if a \<in> vertex_data ` set vs then Some (- 1) else hm_lookup ds a) \<and>
      hm_lookup cn' = (\<lambda>a. if a \<in> vertex_data ` set vs then Some None else hm_lookup cn a)"
proof (induction vs arbitrary: ds cn)
  case Nil
  then show ?case by simp
next
  case (Cons v vs)
  let ?d1 = "setitem_result ds (vertex_data v) (- 1)"
  let ?c1 = "setitem_result cn (vertex_data v) None"
  from Cons.prems have i: "hm_inv ds" "hm_inv cn" by (simp_all add: hm_exact_inv)
  have e: "hm_exact ?d1" "hm_exact ?c1" using Cons.prems by (simp_all add: setitem_result_exact)
  from Cons.IH [OF e] obtain ds' cn' where r: "init_tables (map Some vs) (?d1, ?c1) = Inr (ds', cn')"
    "hm_exact ds'" "hm_exact cn'"
    "hm_lookup ds' = (\<lambda>a. if a \<in> vertex_data ` set vs then Some (- 1) else hm_lookup ?d1 a)"
    "hm_lookup cn' = (\<lambda>a. if a \<in> vertex_data ` set vs then Some None else hm_lookup ?c1 a)"
    by blast
  have "init_tables (map Some (v # vs)) (ds, cn) = Inr (ds', cn')"
    using r(1) by (simp add: setitem_inv i)
  moreover have "hm_lookup ds' =
      (\<lambda>a. if a \<in> vertex_data ` set (v # vs) then Some (- 1) else hm_lookup ds a)"
    by (rule ext) (simp add: r(4) setitem_result_props(2) [OF i(1)])
  moreover have "hm_lookup cn' =
      (\<lambda>a. if a \<in> vertex_data ` set (v # vs) then Some None else hm_lookup cn a)"
    by (rule ext) (simp add: r(5) setitem_result_props(2) [OF i(2)])
  ultimately show ?case using r(2,3) by blast
qed

lemma reset_distances_inv:
  "hm_exact ds \<Longrightarrow> index + length vs \<le> length (items va) \<Longrightarrow>
   \<exists>ds'. reset_distances vs origin index (ds, va) =
          Inr (ds', va\<lparr>items := take index (items va) @ map Some vs
                               @ drop (index + length vs) (items va)\<rparr>) \<and>
      hm_exact ds' \<and>
      hm_lookup ds' = (\<lambda>a. if a \<in> set vs \<and> a \<noteq> origin then Some (- 1) else hm_lookup ds a)"
proof (induction vs arbitrary: ds va index)
  case Nil
  then show ?case by simp
next
  case (Cons v vs)
  let ?d1 = "if v \<noteq> origin then setitem_result ds v (- 1) else ds"
  let ?va = "va\<lparr>items := (items va)[index := Some v]\<rparr>"
  from Cons.prems have i: "hm_inv ds" by (simp add: hm_exact_inv)
  from Cons.prems have idx: "index < length (items va)" by simp
  have e: "hm_exact ?d1" using Cons.prems by (simp add: setitem_result_exact)
  have b: "Suc index + length vs \<le> length (items ?va)" using Cons.prems by simp
  from Cons.IH [OF e b] obtain ds' where r:
    "reset_distances vs origin (Suc index) (?d1, ?va) =
          Inr (ds', ?va\<lparr>items := take (Suc index) (items ?va) @ map Some vs
                               @ drop (Suc index + length vs) (items ?va)\<rparr>)"
    "hm_exact ds'"
    "hm_lookup ds' = (\<lambda>a. if a \<in> set vs \<and> a \<noteq> origin then Some (- 1) else hm_lookup ?d1 a)"
    by blast
  have t: "take (Suc index) ((items va)[index := Some v]) = take index (items va) @ [Some v]"
    using idx by (simp add: take_Suc_conv_app_nth)
  have "reset_distances (v # vs) origin index (ds, va) =
          Inr (ds', va\<lparr>items := take index (items va) @ map Some (v # vs)
                               @ drop (index + length (v # vs)) (items va)\<rparr>)"
    using r(1) idx t by (cases "v = origin") (simp_all add: setitem_inv [OF i] Array_setitem_def)
  moreover have "hm_lookup ds' =
      (\<lambda>a. if a \<in> set (v # vs) \<and> a \<noteq> origin then Some (- 1) else hm_lookup ds a)"
    by (rule ext) (simp add: r(3) setitem_result_props(2) [OF i])
  ultimately show ?case using r(2) by blast
qed

lemma distance_of_inv:
  "hm_inv ds \<Longrightarrow> a \<in> dom (hm_lookup ds) \<Longrightarrow> distance_of ds (Some a) = Inr (distance ds a)"
  by (auto simp: distance_of_def getitem_inv distance_def)

lemma select_minimum_inv:
  assumes "hm_inv ds"
  shows "set xs \<subseteq> dom (hm_lookup ds) \<Longrightarrow> set_option acc \<subseteq> dom (hm_lookup ds) \<Longrightarrow>
     select_minimum ds (map Some xs) acc = Inr (first_minimum (distance ds) xs acc)"
proof (induction xs arbitrary: acc)
  case Nil
  then show ?case by simp
next
  case (Cons x xs)
  from Cons.prems have x: "x \<in> dom (hm_lookup ds)" and xs: "set xs \<subseteq> dom (hm_lookup ds)" by auto
  note dx = distance_of_inv [OF assms x]
  show ?case
  proof (cases acc)
    case None
    with Cons.IH [OF xs, of "Some x"] Cons.IH [OF xs, of None] x show ?thesis
      by (simp add: dx)
  next
    case (Some a)
    with Cons.prems have a: "a \<in> dom (hm_lookup ds)" by simp
    with Some Cons.IH [OF xs, of "Some x"] Cons.IH [OF xs, of "Some a"] x show ?thesis
      by (simp add: dx distance_of_inv [OF assms a])
  qed
qed

lemma first_minimum_keeps:
  "\<forall>x \<in> set xs. D x > - 1 \<longrightarrow> \<not> D x < D u \<Longrightarrow> first_minimum D xs (Some u) = Some u"
  by (induction xs) auto

lemma first_minimum_unique:
  "u \<in> set xs \<Longrightarrow> D u > - 1 \<Longrightarrow> \<forall>x \<in> set xs. x \<noteq> u \<longrightarrow> D x > - 1 \<longrightarrow> D u < D x \<Longrightarrow>
   acc = None \<or> acc = Some u \<or> (\<exists>a. acc = Some a \<and> D u < D a) \<Longrightarrow>
   first_minimum D xs acc = Some u"
proof (induction xs arbitrary: acc)
  case Nil
  then show ?case by simp
next
  case (Cons x xs)
  show ?case
  proof (cases "x = u")
    case True
    have k: "first_minimum D xs (Some u) = Some u"
      using Cons.prems(3) by (intro first_minimum_keeps) (auto simp: not_less less_imp_le)
    from Cons.prems(4) True Cons.prems(2) k show ?thesis
      by (auto split: option.splits)
  next
    case False
    with Cons.prems have u: "u \<in> set xs" and
      r: "\<forall>x \<in> set xs. x \<noteq> u \<longrightarrow> D x > - 1 \<longrightarrow> D u < D x" and
      dx: "D x > - 1 \<longrightarrow> D u < D x" by auto
    note IH = Cons.IH [OF u Cons.prems(2) r]
    show ?thesis
    proof (cases "D x > - 1")
      case False
      with IH [OF Cons.prems(4)] show ?thesis by simp
    next
      case True
      with dx have lt: "D u < D x" by simp
      from Cons.prems(4) consider "acc = None" | "acc = Some u" | a where "acc = Some a" "D u < D a"
        by blast
      then show ?thesis
      proof cases
        case 1
        with True IH [of "Some x"] lt show ?thesis by simp
      next
        case 2
        with True IH [of "Some u"] lt show ?thesis by simp
      next
        case 3
        with True IH [of "Some x"] IH [of "Some a"] lt show ?thesis by simp
      qed
    qed
  qed
qed

lemma remove1_nth:
  "i < length xs \<Longrightarrow> xs ! i = u \<Longrightarrow> u \<notin> set (take i xs) \<Longrightarrow>
   remove1 u xs = take i xs @ drop (Suc i) xs"
proof (induction xs arbitrary: i)
  case Nil
  then show ?case by simp
next
  case (Cons x xs)
  then show ?case by (cases i) auto
qed

lemma delete_vertex_found:
  assumes "items va = map Some xs" "logical_size va = int (length xs)"
  shows "u \<in> set (drop i xs) \<Longrightarrow> u \<notin> set (take i xs) \<Longrightarrow>
     delete_vertex va [i..<length xs] (Some u) =
       Inr (va\<lparr>items := map Some (remove1 u xs), logical_size := int (length xs) - 1\<rparr>)"
proof (induction "length xs - i" arbitrary: i)
  case 0
  then show ?case by simp
next
  case (Suc k)
  from Suc.prems(1) have i: "i < length xs" by (cases "i < length xs") auto
  then have upt: "[i..<length xs] = i # [Suc i..<length xs]" by (simp add: upt_conv_Cons)
  have g: "Array_getitem va (int i) = Inr (Some (xs ! i))"
    using i by (simp add: Array_getitem_def assms(1))
  show ?case
  proof (cases "xs ! i = u")
    case True
    have "remove1 u xs = take i xs @ drop (Suc i) xs"
      using i True Suc.prems(2) by (rule remove1_nth)
    then show ?thesis
      using i True
      by (simp add: upt g Array_delitem_def Array_len_def assms take_map drop_map)
  next
    case False
    have "u \<in> set (drop (Suc i) xs)"
      using Suc.prems(1) False i by (simp add: Cons_nth_drop_Suc [symmetric])
    moreover have "u \<notin> set (take (Suc i) xs)"
      using Suc.prems(2) False i by (simp add: take_Suc_conv_app_nth)
    moreover have "k = length xs - Suc i" using Suc.hyps(2) by simp
    ultimately have "delete_vertex va [Suc i..<length xs] (Some u) =
       Inr (va\<lparr>items := map Some (remove1 u xs), logical_size := int (length xs) - 1\<rparr>)"
      by (rule Suc.hyps(1) [rotated])
    with False show ?thesis by (simp add: upt g)
  qed
qed

lemma delete_vertex_None:
  assumes "items va = map Some xs"
  shows "set is \<subseteq> {..<length xs} \<Longrightarrow> delete_vertex va is None = Inr va"
  by (induction "is") (simp_all add: Array_getitem_def assms)

declare relax_loop.simps [simp del] walk_back.simps [simp del]

lemma first_minimum_mem:
  "first_minimum D xs acc = Some u \<Longrightarrow> acc = Some u \<or> u \<in> set xs"
  by (induction xs arbitrary: acc) (auto split: if_splits option.splits)

lemma relax_loop_done:
  "logical_size va = 0 \<Longrightarrow> relax_loop r g (ds, cn, va) = Some (Inr (ds, cn))"
  by (simp add: relax_loop.simps Array_len_def)

lemma relax_loop_step:
  assumes "items va = map Some xs" "logical_size va = int (length xs)" "hm_inv ds"
    "set xs \<subseteq> dom (hm_lookup ds)"
    "first_minimum (distance ds) xs None = Some u"
    "edges_from g u = Inr ra" "relax_edges g u (items ra) (ds, cn) = Inr (ds', cn')"
  shows "relax_loop (Suc r) g (ds, cn, va) =
     relax_loop r g (ds', cn', va\<lparr>items := map Some (remove1 u xs),
                                   logical_size := int (length xs) - 1\<rparr>)"
proof -
  from assms(5) have u: "u \<in> set xs" using first_minimum_mem by fastforce
  then have ne: "length xs \<noteq> 0" by auto
  have s: "select_minimum ds (items va) None = Inr (Some u)"
    using select_minimum_inv [OF assms(3,4), of None] assms(5) by (simp add: assms(1))
  have d: "delete_vertex va [0..<length xs] (Some u) =
       Inr (va\<lparr>items := map Some (remove1 u xs), logical_size := int (length xs) - 1\<rparr>)"
    using assms(1,2) by (rule delete_vertex_found) (use u in simp_all)
  show ?thesis
    using ne by (subst relax_loop.simps) (simp add: Array_len_def assms(2,6,7) s d Array_iter_def)
qed

lemma relax_loop_break:
  assumes "items va = map Some xs" "logical_size va = int (length xs)" "hm_inv ds"
    "set xs \<subseteq> dom (hm_lookup ds)"
    "first_minimum (distance ds) xs None = None"
  shows "relax_loop (Suc r) g (ds, cn, va) = Some (Inr (ds, cn))"
proof -
  have s: "select_minimum ds (items va) None = Inr None"
    using select_minimum_inv [OF assms(3,4), of None] assms(5) by (simp add: assms(1))
  have d: "delete_vertex va [0..<length xs] None = Inr va"
    using assms(1) by (rule delete_vertex_None) auto
  show ?thesis
    by (subst relax_loop.simps) (simp add: Array_len_def assms(2) s d Array_iter_def)
qed

lemma the_items_ran:
  assumes "hm_inv m"
  shows "set (map snd (the_items m)) = ran (hm_lookup m)"
proof (intro set_eqI iffI)
  fix v assume "v \<in> set (map snd (the_items m))"
  then obtain k where "(k, v) \<in> set (the_items m)" by auto
  then have "hm_lookup m k = Some v" by (simp add: the_items_set [OF assms])
  then show "v \<in> ran (hm_lookup m)" by (rule ranI)
next
  fix v assume "v \<in> ran (hm_lookup m)"
  then obtain k where "hm_lookup m k = Some v" by (auto simp: ran_def)
  then have "(k, v) \<in> set (the_items m)" by (simp add: the_items_set [OF assms])
  then show "v \<in> set (map snd (the_items m))" by force
qed

lemma exact_values_length:
  "hm_exact m \<Longrightarrow> count m = int (length (the_items m))"
  by (simp add: hm_exact_def the_items_length)

lemma vertices_exact:
  assumes "hm_exact (vertices_map g)"
  shows "\<exists>a. vertices g = Inr a \<and> Array_iter a = map Some (vertex_list g)"
  using vertices_inv [OF hm_exact_inv [OF assms]] assms
  by (simp add: Array_iter_def hm_exact_def)

lemma Dijkstra_init_inv:
  assumes "hm_exact (vertices_map g)"
  shows "\<exists>d. Dijkstra_init ha hc g = Inr d \<and> graph d = g \<and>
      hm_exact (distances_from_origin d) \<and> hm_exact (route_connections d) \<and>
      hm_exact (airports d) \<and> shortest_route d = ListStack_init \<and>
      hm_lookup (distances_from_origin d) =
        (\<lambda>a. if a \<in> vertex_data ` set (vertex_list g) then Some (- 1) else None) \<and>
      hm_lookup (route_connections d) =
        (\<lambda>a. if a \<in> vertex_data ` set (vertex_list g) then Some None else None) \<and>
      dom (hm_lookup (airports d)) = (\<lambda>v. airport_code (vertex_data v)) ` set (vertex_list g) \<and>
      (\<forall>c a. hm_lookup (airports d) c = Some a \<longrightarrow>
         a \<in> vertex_data ` set (vertex_list g) \<and> airport_code a = c)"
proof -
  let ?da = "empty_map 7 (default_hash_function ha) :: (Airport, real) HashMap"
  let ?ca = "empty_map 7 (default_hash_function ha) :: (Airport, Airport option) HashMap"
  let ?ap = "empty_map 7 (default_hash_function hc) :: (string, Airport) HashMap"
  from vertices_exact [OF assms] obtain a where a: "vertices g = Inr a"
    "Array_iter a = map Some (vertex_list g)" by blast
  have e: "hm_exact ?da" "hm_exact ?ca" "hm_exact ?ap"
    by (simp_all add: empty_map_exact hash_ok_default)
  have l: "hm_lookup ?da = Map.empty" "hm_lookup ?ca = Map.empty" "hm_lookup ?ap = Map.empty"
    by (simp_all add: empty_map_lookup_eq hash_ok_default)
  from collect_airports_inv [OF e(3), of "vertex_list g"] obtain aps where
    aps: "collect_airports (map Some (vertex_list g)) ?ap = Inr aps" "hm_exact aps"
      "dom (hm_lookup aps) = dom (hm_lookup ?ap) \<union> (\<lambda>v. airport_code (vertex_data v)) ` set (vertex_list g)"
      "\<forall>c a. hm_lookup aps c = Some a \<longrightarrow>
           hm_lookup ?ap c = Some a \<or> (a \<in> vertex_data ` set (vertex_list g) \<and> airport_code a = c)"
    by blast
  from init_tables_inv [OF e(1,2), of "vertex_list g"] obtain ds cn where
    t: "init_tables (map Some (vertex_list g)) (?da, ?ca) = Inr (ds, cn)" "hm_exact ds" "hm_exact cn"
      "hm_lookup ds = (\<lambda>a. if a \<in> vertex_data ` set (vertex_list g) then Some (- 1) else hm_lookup ?da a)"
      "hm_lookup cn = (\<lambda>a. if a \<in> vertex_data ` set (vertex_list g) then Some None else hm_lookup ?ca a)"
    by blast
  have "Dijkstra_init ha hc g =
      Inr \<lparr>graph = g, distances_from_origin = ds, route_connections = cn,
           shortest_route = ListStack_init, airports = aps\<rparr>"
    by (simp add: Dijkstra_init_def HashMap_init_eq a aps(1) t(1))
  then show ?thesis
    using aps(2,3,4) t(2,3,4,5) by (simp add: l cong del: if_weak_cong)
qed

lemma find_shortest_paths_start:
  assumes "hm_exact (airports d)" "hm_exact (distances_from_origin d)"
    "hm_inv (route_connections d)"
  shows "\<exists>ds va. find_shortest_paths r d origin =
       (case relax_loop r (graph d)
               (ds, setitem_result (route_connections d) origin None, va) of
          None \<Rightarrow> None
        | Some (Inl e) \<Rightarrow> Some (Inl e)
        | Some (Inr (ds', cn')) \<Rightarrow>
            Some (Inr (d\<lparr>distances_from_origin := ds', route_connections := cn'\<rparr>))) \<and>
     hm_exact ds \<and>
     hm_lookup ds =
       (\<lambda>a. if a \<in> ran (hm_lookup (airports d)) \<and> a \<noteq> origin then Some (- 1)
            else ((hm_lookup (distances_from_origin d))(origin \<mapsto> 0)) a) \<and>
     items va = map Some (map snd (the_items (airports d))) \<and>
     logical_size va = int (length (the_items (airports d)))"
proof -
  let ?vs = "map snd (the_items (airports d))"
  let ?n = "count (airports d)"
  let ?d1 = "setitem_result (distances_from_origin d) origin 0"
  note ia = hm_exact_inv [OF assms(1)] and id = hm_exact_inv [OF assms(2)]
  have n: "?n = int (length ?vs)" using exact_values_length [OF assms(1)] by simp
  have e1: "hm_exact ?d1" using assms(2) by (rule setitem_result_exact)
  from reset_distances_inv [OF e1, of 0 ?vs "Array_init ?n None" origin] n obtain ds where
    r: "reset_distances ?vs origin 0 (?d1, Array_init ?n None) =
          Inr (ds, (Array_init ?n None)\<lparr>items := map Some ?vs\<rparr>)"
      "hm_exact ds"
      "hm_lookup ds = (\<lambda>a. if a \<in> set ?vs \<and> a \<noteq> origin then Some (- 1) else hm_lookup ?d1 a)"
    by (auto simp: Array_init_def)
  let ?va = "(Array_init ?n None)\<lparr>items := map Some ?vs\<rparr>"
  have "find_shortest_paths r d origin =
       (case relax_loop r (graph d) (ds, setitem_result (route_connections d) origin None, ?va) of
          None \<Rightarrow> None
        | Some (Inl e) \<Rightarrow> Some (Inl e)
        | Some (Inr (ds', cn')) \<Rightarrow>
            Some (Inr (d\<lparr>distances_from_origin := ds', route_connections := cn'\<rparr>)))"
    by (simp add: find_shortest_paths_def len_inv [OF ia] setitem_inv [OF assms(3)]
        setitem_inv [OF id] values_inv [OF ia] r(1))
  moreover have "hm_lookup ds =
       (\<lambda>a. if a \<in> ran (hm_lookup (airports d)) \<and> a \<noteq> origin then Some (- 1)
            else ((hm_lookup (distances_from_origin d))(origin \<mapsto> 0)) a)"
    using r(3) the_items_ran [OF ia]
    by (simp add: setitem_result_props(2) [OF id] cong del: if_weak_cong)
  moreover have "items ?va = map Some ?vs" "logical_size ?va = int (length (the_items (airports d)))"
    using n by (simp_all add: Array_init_def)
  ultimately show ?thesis using r(2) by blast
qed

lemma airports_distinct [simp]:
  "airport_A \<noteq> airport_B" "airport_B \<noteq> airport_A" "airport_A \<noteq> airport_C"
  "airport_C \<noteq> airport_A" "airport_B \<noteq> airport_C" "airport_C \<noteq> airport_B"
  by (simp_all add: airport_A_def airport_B_def airport_C_def)

lemma airport_codes [simp]:
  "airport_code airport_A = ''A''" "airport_code airport_B = ''B''" "airport_code airport_C = ''C''"
  by (simp_all add: airport_A_def airport_B_def airport_C_def)

lemma setitem_lookup_apply:
  "hm_inv m \<Longrightarrow> hm_lookup (setitem_result m k v) a = (if a = k then Some v else hm_lookup m a)"
  by (simp add: setitem_result_props(2))

lemma map_ABC_steps:
  fixes ha :: "Airport \<Rightarrow> hashed"
  defines "m0 \<equiv> empty_map 7 (default_hash_function ha) :: (Airport, ref) HashMap"
  defines "m1 \<equiv> setitem_result m0 airport_A 0"
  defines "m2 \<equiv> setitem_result m1 airport_B (Suc 0)"
  shows "hm_exact m0" "hm_lookup m0 = Map.empty"
    "hm_exact m1" "hm_lookup m1 = [airport_A \<mapsto> 0]"
    "hm_exact m2" "hm_lookup m2 = [airport_A \<mapsto> 0, airport_B \<mapsto> Suc 0]"
    "hm_exact (map_ABC ha)"
    "hm_lookup (map_ABC ha) = [airport_A \<mapsto> 0, airport_B \<mapsto> Suc 0, airport_C \<mapsto> 2]"
proof -
  show e0: "hm_exact m0" unfolding m0_def by (simp add: empty_map_exact hash_ok_default)
  show l0: "hm_lookup m0 = Map.empty" unfolding m0_def
    by (simp add: empty_map_lookup_eq hash_ok_default)
  show e1: "hm_exact m1" unfolding m1_def using e0 by (rule setitem_result_exact)
  show l1: "hm_lookup m1 = [airport_A \<mapsto> 0]" unfolding m1_def
    using setitem_result_props(2) [OF hm_exact_inv [OF e0]] l0 by simp
  show e2: "hm_exact m2" unfolding m2_def using e1 by (rule setitem_result_exact)
  show l2: "hm_lookup m2 = [airport_A \<mapsto> 0, airport_B \<mapsto> Suc 0]" unfolding m2_def
    using setitem_result_props(2) [OF hm_exact_inv [OF e1]] l1 by simp
  have m: "map_ABC ha = setitem_result m2 airport_C 2"
    by (simp add: map_ABC_def m2_def m1_def m0_def)
  show "hm_exact (map_ABC ha)" unfolding m using e2 by (rule setitem_result_exact)
  show "hm_lookup (map_ABC ha) = [airport_A \<mapsto> 0, airport_B \<mapsto> Suc 0, airport_C \<mapsto> 2]"
    unfolding m using setitem_result_props(2) [OF hm_exact_inv [OF e2]] l2 by simp
qed

lemma route_graph_built:
  "bindE (Graph_init ha) (\<lambda>g.
   bindE (add_edge g airport_A airport_B e1 1) (\<lambda>g.
   bindE (add_edge g airport_B airport_C e2 2) (\<lambda>g.
     add_edge g airport_A airport_C e3 10))) = Inr (route_graph ha e1 e2 e3)"
proof -
  let ?m0 = "empty_map 7 (default_hash_function ha) :: (Airport, ref) HashMap"
  let ?m1 = "setitem_result ?m0 airport_A 0"
  let ?m2 = "setitem_result ?m1 airport_B (Suc 0)"
  note s = map_ABC_steps [of ha]
  note i = s(1,3,5,7) [THEN hm_exact_inv]
  let ?g0 = "\<lparr>vertices_map = ?m0, store = []\<rparr> :: (Airport, 'a) Graph"
  let ?g1 = "\<lparr>vertices_map = ?m2,
      store = [\<lparr>vertex_data = airport_A,
                edges = [\<lparr>destination_vertex = Suc 0, edge_data = e1, weight = 1\<rparr>]\<rparr>,
               \<lparr>vertex_data = airport_B, edges = []\<rparr>]\<rparr>"
  let ?g2 = "\<lparr>vertices_map = map_ABC ha,
      store = [\<lparr>vertex_data = airport_A,
                edges = [\<lparr>destination_vertex = Suc 0, edge_data = e1, weight = 1\<rparr>]\<rparr>,
               \<lparr>vertex_data = airport_B,
                edges = [\<lparr>destination_vertex = 2, edge_data = e2, weight = 2\<rparr>]\<rparr>,
               \<lparr>vertex_data = airport_C, edges = []\<rparr>]\<rparr>"
  have a1: "add_edge ?g0 airport_A airport_B e1 1 = Inr ?g1"
    by (simp add: add_edge_inv i add_edge_result_def endpoint_result_def s(2,4)
        Vertex_add_edge_def LinkedList_append_def)
  have a2: "add_edge ?g1 airport_B airport_C e2 2 = Inr ?g2"
    by (simp add: add_edge_inv i add_edge_result_def endpoint_result_def s(6)
        Vertex_add_edge_def LinkedList_append_def map_ABC_def numeral_2_eq_2)
  have a3: "add_edge ?g2 airport_A airport_C e3 10 = Inr (route_graph ha e1 e2 e3)"
    by (simp add: add_edge_inv i add_edge_result_def endpoint_result_def s(8)
        Vertex_add_edge_def LinkedList_append_def route_graph_def)
  show ?thesis by (simp add: Graph_init_eq a1 a2 a3)
qed

lemma route_graph_vertices:
  "vertex_data ` set (vertex_list (route_graph ha e1 e2 e3)) = {airport_A, airport_B, airport_C}"
  "(\<lambda>v. airport_code (vertex_data v)) ` set (vertex_list (route_graph ha e1 e2 e3))
     = {''A'', ''B'', ''C''}"
proof -
  note s = map_ABC_steps(7,8) [of ha]
  have r: "ran [airport_A \<mapsto> 0, airport_B \<mapsto> Suc 0, airport_C \<mapsto> 2::nat] = {0, Suc 0, 2}"
    by (auto simp: ran_map_upd)
  have "set (map snd (the_items (map_ABC ha))) = {0, Suc 0, 2}"
    unfolding the_items_ran [OF hm_exact_inv [OF s(1)]] s(2) by (rule r)
  then have "set (map (\<lambda>r. store (route_graph ha e1 e2 e3) ! r) (map snd (the_items (map_ABC ha)))) =
     (\<lambda>r. store (route_graph ha e1 e2 e3) ! r) ` {0, Suc 0, 2}"
    by (simp only: set_map)
  then have "set (vertex_list (route_graph ha e1 e2 e3)) =
     (\<lambda>r. store (route_graph ha e1 e2 e3) ! r) ` {0, Suc 0, 2}"
    by (simp add: vertex_list_def route_graph_def [of ha])
  then show "vertex_data ` set (vertex_list (route_graph ha e1 e2 e3)) = {airport_A, airport_B, airport_C}"
    "(\<lambda>v. airport_code (vertex_data v)) ` set (vertex_list (route_graph ha e1 e2 e3))
     = {''A'', ''B'', ''C''}"
    by (simp_all add: route_graph_def numeral_2_eq_2)
qed

lemma values_distinct:
  assumes "hm_inv m" "\<forall>c a. hm_lookup m c = Some a \<longrightarrow> f a = c"
  shows "distinct (map snd (the_items m))"
proof -
  have "map fst (the_items m) = map f (map snd (the_items m))"
    using assms(2) by (auto simp: the_items_set [OF assms(1)])
  with the_items_distinct [OF assms(1)] have "distinct (map f (map snd (the_items m)))" by simp
  then show ?thesis unfolding distinct_map [of f] by (rule conjunct1)
qed

lemma edges_from_route_graph:
  "edges_from (route_graph ha e1 e2 e3) airport_A =
     Inr \<lparr>items = [Some \<lparr>destination_vertex = Suc 0, edge_data = e1, weight = 1\<rparr>,
                   Some \<lparr>destination_vertex = 2, edge_data = e3, weight = 10\<rparr>],
          physical_size = 2, logical_size = 2, default_item_value = None\<rparr>"
  "edges_from (route_graph ha e1 e2 e3) airport_B =
     Inr \<lparr>items = [Some \<lparr>destination_vertex = 2, edge_data = e2, weight = 2\<rparr>],
          physical_size = 1, logical_size = 1, default_item_value = None\<rparr>"
  "edges_from (route_graph ha e1 e2 e3) airport_C =
     Inr \<lparr>items = [], physical_size = 0, logical_size = 0, default_item_value = None\<rparr>"
  using map_ABC_steps(7,8) [of ha]
  by (simp_all add: edges_from_inv hm_exact_inv route_graph_def)

lemma route_graph_store:
  "vertex_data (store (route_graph ha e1 e2 e3) ! Suc 0) = airport_B"
  "vertex_data (store (route_graph ha e1 e2 e3) ! 2) = airport_C"
  by (simp_all add: route_graph_def)

lemma route_graph_relax_loop:
  fixes ds0 :: "(Airport, real) HashMap" and cn0 :: "(Airport, Airport option) HashMap"
  assumes ds0: "hm_inv ds0" "hm_lookup ds0 airport_A = Some 0" "hm_lookup ds0 airport_B = Some (- 1)"
      "hm_lookup ds0 airport_C = Some (- 1)"
    and cn0: "hm_inv cn0"
    and xs: "set xs = {airport_A, airport_B, airport_C}" "distinct xs"
    and va: "items va = map Some xs" "logical_size va = int (length xs)"
  shows "\<exists>ds cn. relax_loop (Suc (Suc (Suc r))) (route_graph ha e1 e2 e3) (ds0, cn0, va)
           = Some (Inr (ds, cn)) \<and> hm_inv ds \<and> hm_inv cn \<and>
         hm_lookup ds airport_C = Some 3 \<and>
         hm_lookup cn airport_C = Some (Some airport_B) \<and>
         hm_lookup cn airport_B = Some (Some airport_A)"
proof -
  let ?g = "route_graph ha e1 e2 e3"
  let ?ds1 = "setitem_result (setitem_result ds0 airport_B 1) airport_C 10"
  let ?cn1 = "setitem_result (setitem_result cn0 airport_B (Some airport_A)) airport_C (Some airport_A)"
  let ?ds2 = "setitem_result ?ds1 airport_C 3"
  let ?cn2 = "setitem_result ?cn1 airport_C (Some airport_B)"
  let ?xs1 = "remove1 airport_A xs"
  let ?xs2 = "remove1 airport_B ?xs1"
  let ?xs3 = "remove1 airport_C ?xs2"
  let ?va1 = "va\<lparr>items := map Some ?xs1, logical_size := int (length xs) - 1\<rparr>"
  let ?va2 = "?va1\<lparr>items := map Some ?xs2, logical_size := int (length ?xs1) - 1\<rparr>"
  let ?va3 = "?va2\<lparr>items := map Some ?xs3, logical_size := int (length ?xs2) - 1\<rparr>"
  note L = setitem_lookup_apply setitem_result_props(1)
  have s1: "set ?xs1 = {airport_B, airport_C}" "distinct ?xs1"
    using xs by (auto simp: set_remove1_eq)
  have s2: "set ?xs2 = {airport_C}" "distinct ?xs2"
    using s1 by (auto simp: set_remove1_eq)
  have s3: "?xs3 = []"
    using s2 by (simp add: set_remove1_eq flip: set_empty)
  have len: "length xs = 3" "length ?xs1 = 2" "length ?xs2 = 1"
    using distinct_card [OF xs(2)] distinct_card [OF s1(2)] distinct_card [OF s2(2)] xs(1) s1(1) s2(1)
    by simp_all
  \<comment> \<open>Round 1: the origin is the only vertex that has been reached.\<close>
  have D0: "distance ds0 airport_A = 0" "distance ds0 airport_B = - 1" "distance ds0 airport_C = - 1"
    by (simp_all add: distance_def ds0)
  have m1: "first_minimum (distance ds0) xs None = Some airport_A"
    by (rule first_minimum_unique) (use xs(1) D0 in auto)
  have dom0: "set xs \<subseteq> dom (hm_lookup ds0)" using xs(1) ds0 by auto
  have r1: "relax_edges ?g airport_A
       [Some \<lparr>destination_vertex = Suc 0, edge_data = e1, weight = 1\<rparr>,
        Some \<lparr>destination_vertex = 2, edge_data = e3, weight = 10\<rparr>] (ds0, cn0) = Inr (?ds1, ?cn1)"
    by (simp add: getitem_inv setitem_inv L ds0 cn0 route_graph_store)
  have step1: "relax_loop (Suc (Suc (Suc r))) ?g (ds0, cn0, va) = relax_loop (Suc (Suc r)) ?g (?ds1, ?cn1, ?va1)"
    by (rule relax_loop_step [OF va ds0(1) dom0 m1 edges_from_route_graph(1)]) (simp only: Array.simps r1)
  \<comment> \<open>Round 2: B at distance 1 is nearer than C at distance 10.\<close>
  have i1: "hm_inv ?ds1" "hm_inv ?cn1" by (simp_all add: L ds0 cn0)
  have l1: "hm_lookup ?ds1 airport_B = Some 1" "hm_lookup ?ds1 airport_C = Some 10"
    by (simp_all add: L ds0)
  have D1: "distance ?ds1 airport_B = 1" "distance ?ds1 airport_C = 10"
    by (simp_all add: distance_def l1)
  have m2: "first_minimum (distance ?ds1) ?xs1 None = Some airport_B"
    by (rule first_minimum_unique) (use s1(1) D1 in auto)
  have dom1: "set ?xs1 \<subseteq> dom (hm_lookup ?ds1)" using s1(1) l1 by auto
  have va1: "items ?va1 = map Some ?xs1" "logical_size ?va1 = int (length ?xs1)"
    by (simp_all add: len)
  have r2: "relax_edges ?g airport_B
       [Some \<lparr>destination_vertex = 2, edge_data = e2, weight = 2\<rparr>] (?ds1, ?cn1) = Inr (?ds2, ?cn2)"
    by (simp add: getitem_inv setitem_inv i1 l1 route_graph_store)
  have step2: "relax_loop (Suc (Suc r)) ?g (?ds1, ?cn1, ?va1) = relax_loop (Suc r) ?g (?ds2, ?cn2, ?va2)"
    by (rule relax_loop_step [OF va1 i1(1) dom1 m2 edges_from_route_graph(2)]) (simp only: Array.simps r2)
  \<comment> \<open>Round 3: C, now at distance 3, is the last vertex, and no edge leaves it.\<close>
  have i2: "hm_inv ?ds2" "hm_inv ?cn2" by (simp_all add: L ds0 cn0)
  have l2: "hm_lookup ?ds2 airport_C = Some 3" by (simp add: L ds0)
  have D2: "distance ?ds2 airport_C = 3" by (simp add: distance_def l2)
  have m3: "first_minimum (distance ?ds2) ?xs2 None = Some airport_C"
    by (rule first_minimum_unique) (use s2(1) D2 in auto)
  have dom2: "set ?xs2 \<subseteq> dom (hm_lookup ?ds2)" using s2(1) l2 by auto
  have va2: "items ?va2 = map Some ?xs2" "logical_size ?va2 = int (length ?xs2)"
    by (simp_all add: len)
  have step3: "relax_loop (Suc r) ?g (?ds2, ?cn2, ?va2) = relax_loop r ?g (?ds2, ?cn2, ?va3)"
    by (rule relax_loop_step [OF va2 i2(1) dom2 m3 edges_from_route_graph(3)]) simp
  have fin: "relax_loop r ?g (?ds2, ?cn2, ?va3) = Some (Inr (?ds2, ?cn2))"
    by (rule relax_loop_done) (simp add: len)
  have "hm_lookup ?cn2 airport_C = Some (Some airport_B)"
    "hm_lookup ?cn2 airport_B = Some (Some airport_A)"
    by (simp_all add: L cn0)
  with step1 step2 step3 fin i2 l2 show ?thesis by simp
qed

lemma round2_3: "round2 3 = 3"
  by (simp add: round2_def round_half_even_def)

lemma walk_back_C:
  assumes "hm_inv cn" "hm_lookup cn airport_C = Some (Some airport_B)"
    "hm_lookup cn airport_B = Some (Some airport_A)"
  shows "walk_back (Suc (Suc r)) cn airport_A airport_C ListStack_init =
     Some (Inr (True, \<lparr>stack_items = [''C'', ''B''], stack_top = Some ''B''\<rparr>))"
  by (simp add: walk_back.simps [of _ cn] getitem_inv assms push_def ListStack_init_def
      LinkedList_append_def)

lemma print_legs_CB:
  "print_legs ''A'' \<lparr>stack_items = [''C'', ''B''], stack_top = Some ''B''\<rparr> =
     Inr ([Leg ''A'' ''B'', Leg ''B'' ''C''], \<lparr>stack_items = [], stack_top = None\<rparr>)"
  by (simp add: print_legs.simps [of _ "\<lparr>stack_items = _ # _, stack_top = _\<rparr>"]
      print_legs.simps [of _ "\<lparr>stack_items = [], stack_top = _\<rparr>"]
      ListStack_empty_def pop_def LinkedList_pop_back_def LinkedList_back_def)

lemma route_graph_run:
  fixes ha :: "Airport \<Rightarrow> hashed" and hc :: "string \<Rightarrow> hashed"
  shows "\<exists>d d'. Dijkstra_init ha hc (route_graph ha e1 e2 e3) = Inr d \<and>
     run (Suc (Suc (Suc r))) d airport_A airport_C =
       Some (Inr ([RouteHeader ''A'' ''C'', Leg ''A'' ''B'', Leg ''B'' ''C'', TotalMiles 3], d')) \<and>
     HashMap_getitem (distances_from_origin d') airport_C = Inr 3"
proof -
  let ?g = "route_graph ha e1 e2 e3"
  let ?V = "{airport_A, airport_B, airport_C}"
  have ex: "hm_exact (vertices_map ?g)"
    by (simp add: route_graph_def map_ABC_steps(7))
  from Dijkstra_init_inv [OF ex, of ha hc] obtain d where d0:
    "Dijkstra_init ha hc ?g = Inr d \<and> graph d = ?g \<and>
      hm_exact (distances_from_origin d) \<and> hm_exact (route_connections d) \<and>
      hm_exact (airports d) \<and> shortest_route d = ListStack_init \<and>
      hm_lookup (distances_from_origin d) = (\<lambda>a. if a \<in> ?V then Some (- 1) else None) \<and>
      hm_lookup (route_connections d) = (\<lambda>a. if a \<in> ?V then Some None else None) \<and>
      dom (hm_lookup (airports d)) = {''A'', ''B'', ''C''} \<and>
      (\<forall>c a. hm_lookup (airports d) c = Some a \<longrightarrow> a \<in> ?V \<and> airport_code a = c)"
    unfolding route_graph_vertices ..
  note d = d0 [THEN conjunct1] d0 [THEN conjunct2, THEN conjunct1]
    d0 [THEN conjunct2, THEN conjunct2, THEN conjunct1]
    d0 [THEN conjunct2, THEN conjunct2, THEN conjunct2, THEN conjunct1]
    d0 [THEN conjunct2, THEN conjunct2, THEN conjunct2, THEN conjunct2, THEN conjunct1]
    d0 [THEN conjunct2, THEN conjunct2, THEN conjunct2, THEN conjunct2, THEN conjunct2, THEN conjunct1]
    d0 [THEN conjunct2, THEN conjunct2, THEN conjunct2, THEN conjunct2, THEN conjunct2, THEN conjunct2,
        THEN conjunct1]
    d0 [THEN conjunct2, THEN conjunct2, THEN conjunct2, THEN conjunct2, THEN conjunct2, THEN conjunct2,
        THEN conjunct2, THEN conjunct1]
    d0 [THEN conjunct2, THEN conjunct2, THEN conjunct2, THEN conjunct2, THEN conjunct2, THEN conjunct2,
        THEN conjunct2, THEN conjunct2, THEN conjunct1]
    d0 [THEN conjunct2, THEN conjunct2, THEN conjunct2, THEN conjunct2, THEN conjunct2, THEN conjunct2,
        THEN conjunct2, THEN conjunct2, THEN conjunct2]
  note ia = hm_exact_inv [OF d(5)]
  have look: "hm_lookup (airports d) (airport_code a) = Some a" if "a \<in> ?V" for a
  proof -
    from that have "airport_code a \<in> dom (hm_lookup (airports d))"
      unfolding d(9) by auto
    then obtain b where b: "hm_lookup (airports d) (airport_code a) = Some b" by blast
    with d(10) have "b \<in> ?V" "airport_code b = airport_code a" by blast+
    with that have "b = a" by auto
    with b show ?thesis by simp
  qed
  have ran: "ran (hm_lookup (airports d)) = ?V"
  proof (intro set_eqI iffI)
    fix a assume "a \<in> ran (hm_lookup (airports d))"
    then obtain c where "hm_lookup (airports d) c = Some a" unfolding ran_def by blast
    with d(10) show "a \<in> ?V" by blast
  next
    fix a assume "a \<in> ?V"
    from look [OF this] show "a \<in> ran (hm_lookup (airports d))" by (rule ranI)
  qed
  let ?xs = "map snd (the_items (airports d))"
  have xs1: "set ?xs = ?V" unfolding the_items_ran [OF ia] by (rule ran)
  have xs2: "distinct ?xs"
  proof (rule values_distinct [OF ia, of airport_code])
    show "\<forall>c a. hm_lookup (airports d) c = Some a \<longrightarrow> airport_code a = c"
      using d(10) by blast
  qed
  note xs = xs1 xs2
  from find_shortest_paths_start [OF d(5) d(3) hm_exact_inv [OF d(4)], of "Suc (Suc (Suc r))" airport_A]
  obtain ds va where f: "find_shortest_paths (Suc (Suc (Suc r))) d airport_A =
       (case relax_loop (Suc (Suc (Suc r))) (graph d)
               (ds, setitem_result (route_connections d) airport_A None, va) of
          None \<Rightarrow> None
        | Some (Inl e) \<Rightarrow> Some (Inl e)
        | Some (Inr (ds', cn')) \<Rightarrow>
            Some (Inr (d\<lparr>distances_from_origin := ds', route_connections := cn'\<rparr>)))"
    and ds: "hm_exact ds"
     "hm_lookup ds =
       (\<lambda>a. if a \<in> ran (hm_lookup (airports d)) \<and> a \<noteq> airport_A then Some (- 1)
            else ((hm_lookup (distances_from_origin d))(airport_A \<mapsto> 0)) a)"
    and va: "items va = map Some ?xs" "logical_size va = int (length (the_items (airports d)))"
    by blast
  have va2: "logical_size va = int (length ?xs)" using va(2) by simp
  have l0: "hm_lookup ds airport_A = Some 0" "hm_lookup ds airport_B = Some (- 1)"
    "hm_lookup ds airport_C = Some (- 1)"
    by (simp_all add: ds(2) ran)
  have ic: "hm_inv (setitem_result (route_connections d) airport_A None)"
    by (rule setitem_result_props(1) [OF hm_exact_inv [OF d(4)]])
  from route_graph_relax_loop [OF hm_exact_inv [OF ds(1)] l0 ic xs va(1) va2, of r ha e1 e2 e3]
  obtain ds' cn' where r: "relax_loop (Suc (Suc (Suc r))) ?g
        (ds, setitem_result (route_connections d) airport_A None, va) = Some (Inr (ds', cn'))"
    "hm_inv ds'" "hm_inv cn'" "hm_lookup ds' airport_C = Some 3"
    "hm_lookup cn' airport_C = Some (Some airport_B)"
    "hm_lookup cn' airport_B = Some (Some airport_A)"
    by blast
  have F: "find_shortest_paths (Suc (Suc (Suc r))) d airport_A =
      Some (Inr (d\<lparr>distances_from_origin := ds', route_connections := cn'\<rparr>))"
    by (simp add: f d(2) r(1))
  have W: "walk_back (Suc (Suc (Suc r))) cn' airport_A airport_C ListStack_init =
     Some (Inr (True, \<lparr>stack_items = [''C'', ''B''], stack_top = Some ''B''\<rparr>))"
    by (rule walk_back_C [OF r(3,5,6)])
  have "run (Suc (Suc (Suc r))) d airport_A airport_C =
       Some (Inr ([RouteHeader ''A'' ''C'', Leg ''A'' ''B'', Leg ''B'' ''C'', TotalMiles 3],
         d\<lparr>distances_from_origin := ds', route_connections := cn',
           shortest_route := \<lparr>stack_items = [], stack_top = None\<rparr>\<rparr>))"
    by (simp add: run_def F W d(6) print_legs_CB getitem_inv r(2,4) round2_3)
  moreover have "HashMap_getitem ds' airport_C = Inr 3" by (simp add: getitem_inv r(2,4))
  ultimately show ?thesis using d(1)
    apply -
    apply (rule exI [of _ d])
    apply (rule exI [of _ "d\<lparr>distances_from_origin := ds', route_connections := cn',
           shortest_route := \<lparr>stack_items = [], stack_top = None\<rparr>\<rparr>"])
    apply simp
    done
qed

lemma add_vertex_inv:
  assumes "hm_inv (vertices_map g)"
  shows "add_vertex g d =
     Inr \<lparr>vertices_map = setitem_result (vertices_map g) d (length (store g)),
          store = store g @ [\<lparr>vertex_data = d, edges = []\<rparr>]\<rparr>"
  by (simp add: add_vertex_def Vertex_init_def setitem_inv [OF assms])

lemma remove_vertex_inv:
  assumes "hm_inv (vertices_map g)" "hm_lookup (vertices_map g) d = Some r"
  shows "remove_vertex g d = Inr (g\<lparr>vertices_map := delete_result (vertices_map g) d\<rparr>)"
  by (simp add: remove_vertex_def delitem_inv [OF assms(1)] assms(2))

lemma delete_result_stale:
  assumes "hm_inv m" "hm_lookup m k = Some w"
  shows "int (n_pairs (delete_result m k)) < count (delete_result m k)"
proof -
  note i = delete_result_inv [OF assms]
  have "dom (hm_lookup m) = fst ` set (the_items m)"
    using the_items_set [OF assms(1)] by (force simp: dom_def)
  then have f: "finite (dom (hm_lookup m))" by simp
  have "k \<in> dom (hm_lookup m)" using assms(2) by blast
  with f have "card (dom (hm_lookup m) - {k}) < card (dom (hm_lookup m))"
    by (rule card_Diff1_less)
  then have "n_pairs (delete_result m k) < n_pairs m"
    by (simp add: n_pairs_card [OF i] n_pairs_card [OF assms(1)] delete_result_lookup [OF assms])
  moreover from assms(1) have "int (n_pairs m) \<le> count m" by (simp add: hm_inv_def)
  ultimately show ?thesis by simp
qed

lemma Dijkstra_init_stale_count:
  assumes "hm_inv (vertices_map g)" "int (n_pairs (vertices_map g)) < count (vertices_map g)"
  shows "Dijkstra_init ha hc g = Inl AttributeError"
proof -
  let ?k = "nat (count (vertices_map g)) - n_pairs (vertices_map g)"
  from assms(2) obtain j where j: "?k = Suc j" by (cases ?k) auto
  have "hm_inv (empty_map 7 (default_hash_function hc) :: (string, Airport) HashMap)"
    by (simp add: empty_map_inv hash_ok_default)
  then show ?thesis
    by (simp add: Dijkstra_init_def HashMap_init_eq vertices_inv [OF assms(1)] Array_iter_def j
        collect_airports_None)
qed

lemma two_airports_built:
  "bindE (Graph_init ha) (\<lambda>g.
   bindE (add_vertex g airport_A) (\<lambda>g.
   bindE (add_vertex g airport_B) (\<lambda>g.
   bindE (add_vertex g airport_C) (\<lambda>g.
     remove_vertex g airport_C)))) = Inr (two_airports ha)"
proof -
  note s = map_ABC_steps [of ha]
  note i = s(1,3,5,7) [THEN hm_exact_inv]
  let ?g = "\<lparr>vertices_map = map_ABC ha,
      store = [\<lparr>vertex_data = airport_A, edges = []\<rparr>, \<lparr>vertex_data = airport_B, edges = []\<rparr>,
               \<lparr>vertex_data = airport_C, edges = []\<rparr>]\<rparr> :: (Airport, 'a) Graph"
  have "remove_vertex ?g airport_C = Inr (two_airports ha)"
    using remove_vertex_inv [of ?g airport_C 2] by (simp add: i s(8) two_airports_def)
  then show ?thesis
    by (simp add: Graph_init_eq add_vertex_inv i map_ABC_def numeral_2_eq_2)
qed

lemma two_airports_props:
  "hm_inv (vertices_map (two_airports ha))"
  "hm_lookup (vertices_map (two_airports ha)) = [airport_A \<mapsto> 0, airport_B \<mapsto> Suc 0]"
  "int (n_pairs (vertices_map (two_airports ha))) < count (vertices_map (two_airports ha))"
proof -
  note s = map_ABC_steps(7,8) [of ha]
  note i = hm_exact_inv [OF s(1)]
  have l: "hm_lookup (map_ABC ha) airport_C = Some 2" by (simp add: s(2))
  show "hm_inv (vertices_map (two_airports ha))"
    by (simp add: two_airports_def delete_result_inv [OF i l])
  show "hm_lookup (vertices_map (two_airports ha)) = [airport_A \<mapsto> 0, airport_B \<mapsto> Suc 0]"
    by (simp add: two_airports_def delete_result_lookup [OF i l] s(2))
  show "int (n_pairs (vertices_map (two_airports ha))) < count (vertices_map (two_airports ha))"
    using delete_result_stale [OF i l] by (simp add: two_airports_def)
qed

section \<open>Dijkstra: an unreachable destination\<close>

lemma dom_the_items: "hm_inv m \<Longrightarrow> dom (hm_lookup m) = fst ` set (the_items m)"
  using the_items_set [of m] by (force simp: dom_def)

lemma graph_ok_iff:
  "graph_ok g \<longleftrightarrow>
     hm_exact (vertices_map g) \<and>
     (\<forall>u r. hm_lookup (vertices_map g) u = Some r \<longrightarrow>
        r < length (store g) \<and> vertex_data (store g ! r) = u) \<and>
     (\<forall>i < length (store g). \<forall>e \<in> set (edges (store g ! i)).
        destination_vertex e < length (store g) \<and>
        vertex_data (store g ! destination_vertex e) \<in> dom (hm_lookup (vertices_map g)))"
proof (cases "hm_exact (vertices_map g)")
  case False
  then show ?thesis by (simp add: graph_ok_def)
next
  case True
  then have i: "hm_inv (vertices_map g)" by (rule hm_exact_inv)
  have 1: "list_all (\<lambda>(u, r). r < length (store g) \<and> vertex_data (store g ! r) = u)
       (the_items (vertices_map g)) \<longleftrightarrow>
     (\<forall>u r. hm_lookup (vertices_map g) u = Some r \<longrightarrow>
        r < length (store g) \<and> vertex_data (store g ! r) = u)"
    by (auto simp: list_all_iff the_items_set [OF i, symmetric])
  have 2: "list_all (\<lambda>vertex.
         list_all (\<lambda>e. destination_vertex e < length (store g) \<and>
             vertex_data (store g ! destination_vertex e) \<in> fst ` set (the_items (vertices_map g)))
           (edges vertex))
       (store g) \<longleftrightarrow>
     (\<forall>i < length (store g). \<forall>e \<in> set (edges (store g ! i)).
        destination_vertex e < length (store g) \<and>
        vertex_data (store g ! destination_vertex e) \<in> dom (hm_lookup (vertices_map g)))"
    unfolding dom_the_items [OF i] list_all_iff all_set_conv_all_nth by blast
  show ?thesis unfolding graph_ok_def 1 2 ..
qed

lemma graph_ok_vertex:
  assumes "graph_ok g" "hm_lookup (vertices_map g) u = Some r"
  shows "vertex_data (store g ! r) = u"
    "set (successors g u) \<subseteq> dom (hm_lookup (vertices_map g))"
proof -
  from assms have r: "r < length (store g)" "vertex_data (store g ! r) = u"
    and e: "\<forall>e \<in> set (edges (store g ! r)).
        vertex_data (store g ! destination_vertex e) \<in> dom (hm_lookup (vertices_map g))"
    unfolding graph_ok_iff by blast+
  show "vertex_data (store g ! r) = u" by (rule r(2))
  show "set (successors g u) \<subseteq> dom (hm_lookup (vertices_map g))"
    using e by (auto simp: successors_def assms(2))
qed

lemma vertex_list_data:
  assumes "graph_ok g"
  shows "vertex_data ` set (vertex_list g) = dom (hm_lookup (vertices_map g))"
proof -
  from assms have i: "hm_inv (vertices_map g)" by (simp add: graph_ok_iff hm_exact_def)
  have "vertex_data (store g ! snd p) = fst p" if "p \<in> set (the_items (vertices_map g))" for p
    using graph_ok_vertex(1) [OF assms, of "fst p" "snd p"] that
    by (simp add: the_items_set [OF i, symmetric])
  then have "map vertex_data (vertex_list g) = map fst (the_items (vertices_map g))"
    by (simp add: vertex_list_def)
  then have "set (map vertex_data (vertex_list g)) = set (map fst (the_items (vertices_map g)))"
    by simp
  then show ?thesis by (simp add: dom_the_items [OF i])
qed

lemma relax_edges_ok:
  assumes "hm_inv ds" "hm_inv cn" "u \<in> dom (hm_lookup ds)"
    "\<forall>e \<in> set es. vertex_data (store g ! destination_vertex e) \<in> dom (hm_lookup ds) - U"
  shows "\<exists>ds' cn'. relax_edges g u (map Some es) (ds, cn) = Inr (ds', cn') \<and>
     hm_inv ds' \<and> hm_inv cn' \<and> dom (hm_lookup ds') = dom (hm_lookup ds) \<and>
     (\<forall>w \<in> U. hm_lookup ds' w = hm_lookup ds w \<and> hm_lookup cn' w = hm_lookup cn w)"
  using assms
proof (induction es arbitrary: ds cn)
  case Nil
  then show ?case by simp
next
  case (Cons e es)
  let ?v = "vertex_data (store g ! destination_vertex e)"
  from Cons.prems(3) obtain du where du: "hm_lookup ds u = Some du" by blast
  from Cons.prems(4) have v: "?v \<in> dom (hm_lookup ds)" "?v \<notin> U" by auto
  then obtain dv where dv: "hm_lookup ds ?v = Some dv" by blast
  let ?ds = "setitem_result ds ?v (du + weight e)"
  let ?cn = "setitem_result cn ?v (Some u)"
  note p = setitem_result_props(1,2) [OF Cons.prems(1), of ?v "du + weight e"]
  note q = setitem_result_props(1,2) [OF Cons.prems(2), of ?v "Some u"]
  have dm: "dom (hm_lookup ?ds) = dom (hm_lookup ds)" using v(1) by (auto simp: p(2))
  show ?case
  proof (cases "dv = - 1 \<or> du + weight e < dv")
    case True
    have "relax_edges g u (map Some (e # es)) (ds, cn) = relax_edges g u (map Some es) (?ds, ?cn)"
      using True
      by (auto simp: getitem_inv [OF Cons.prems(1)] du dv setitem_inv [OF Cons.prems(1)]
          setitem_inv [OF Cons.prems(2)] Let_def)
    moreover from Cons.IH [OF p(1) q(1), unfolded dm, OF Cons.prems(3)] Cons.prems(4)
    obtain ds' cn' where "relax_edges g u (map Some es) (?ds, ?cn) = Inr (ds', cn')"
      "hm_inv ds'" "hm_inv cn'" "dom (hm_lookup ds') = dom (hm_lookup ds)"
      "\<forall>w \<in> U. hm_lookup ds' w = hm_lookup ?ds w \<and> hm_lookup cn' w = hm_lookup ?cn w"
      by auto
    ultimately show ?thesis using v(2) by (auto simp: p(2) q(2))
  next
    case False
    have "relax_edges g u (map Some (e # es)) (ds, cn) = relax_edges g u (map Some es) (ds, cn)"
      using False by (auto simp: getitem_inv [OF Cons.prems(1)] du dv Let_def)
    moreover from Cons.IH [OF Cons.prems(1,2,3)] Cons.prems(4)
    obtain ds' cn' where "relax_edges g u (map Some es) (ds, cn) = Inr (ds', cn')"
      "hm_inv ds'" "hm_inv cn'" "dom (hm_lookup ds') = dom (hm_lookup ds)"
      "\<forall>w \<in> U. hm_lookup ds' w = hm_lookup ds w \<and> hm_lookup cn' w = hm_lookup cn w"
      by auto
    ultimately show ?thesis by auto
  qed
qed

lemma first_minimum_reached:
  "first_minimum D xs acc = Some u \<Longrightarrow> acc = Some u \<or> D u > - 1"
  by (induction xs arbitrary: acc) (auto split: if_splits option.splits)

lemma relax_loop_ok:
  assumes g: "graph_ok g"
    and U: "U \<subseteq> dom (hm_lookup (vertices_map g))"
      "\<forall>u \<in> dom (hm_lookup (vertices_map g)) - U. set (successors g u) \<inter> U = {}"
  shows "hm_inv ds \<Longrightarrow> hm_inv cn \<Longrightarrow> dom (hm_lookup ds) = dom (hm_lookup (vertices_map g)) \<Longrightarrow>
     set xs \<subseteq> dom (hm_lookup (vertices_map g)) \<Longrightarrow>
     items va = map Some xs \<Longrightarrow> logical_size va = int (length xs) \<Longrightarrow> length xs \<le> r \<Longrightarrow>
     \<forall>w \<in> U. hm_lookup ds w = Some (- 1) \<Longrightarrow>
     \<exists>ds' cn'. relax_loop r g (ds, cn, va) = Some (Inr (ds', cn')) \<and> hm_inv cn' \<and>
       (\<forall>w \<in> U. hm_lookup cn' w = hm_lookup cn w)"
proof (induction r arbitrary: ds cn va xs)
  case 0
  then show ?case by (simp add: relax_loop_done)
next
  case (Suc r)
  let ?V = "dom (hm_lookup (vertices_map g))"
  from g have i: "hm_inv (vertices_map g)" by (simp add: graph_ok_iff hm_exact_def)
  have sub: "set xs \<subseteq> dom (hm_lookup ds)" using Suc.prems(3,4) by simp
  show ?case
  proof (cases "first_minimum (distance ds) xs None")
    case None
    from relax_loop_break [OF Suc.prems(5,6,1) sub None, of r g cn] Suc.prems(2) show ?thesis
      by simp
  next
    case (Some u)
    from first_minimum_mem [OF Some] have ux: "u \<in> set xs" by simp
    with Suc.prems(4) obtain ref where ref: "hm_lookup (vertices_map g) u = Some ref" by blast
    from first_minimum_reached [OF Some] have "distance ds u > - 1" by simp
    then have "hm_lookup ds u \<noteq> Some (- 1)" by (auto simp: distance_def)
    with Suc.prems(8) have uU: "u \<notin> U" by blast
    let ?es = "edges (store g ! ref)"
    let ?ra = "\<lparr>items = map Some ?es, physical_size = int (length ?es),
                logical_size = int (length ?es), default_item_value = None\<rparr>"
    have ef: "edges_from g u = Inr ?ra" by (simp add: edges_from_inv [OF i] ref)
    have succ: "set (successors g u) \<subseteq> ?V - U"
      using graph_ok_vertex(2) [OF g ref] U(2) ref uU by blast
    have es: "\<forall>e \<in> set ?es. vertex_data (store g ! destination_vertex e) \<in> dom (hm_lookup ds) - U"
      using succ by (auto simp: successors_def ref Suc.prems(3))
    have ud: "u \<in> dom (hm_lookup ds)" using sub ux by blast
    from relax_edges_ok [OF Suc.prems(1,2) ud es] obtain ds' cn' where
      r: "relax_edges g u (map Some ?es) (ds, cn) = Inr (ds', cn')" "hm_inv ds'" "hm_inv cn'"
        "dom (hm_lookup ds') = dom (hm_lookup ds)"
        "\<forall>w \<in> U. hm_lookup ds' w = hm_lookup ds w \<and> hm_lookup cn' w = hm_lookup cn w"
      by blast
    let ?va = "va\<lparr>items := map Some (remove1 u xs), logical_size := int (length xs) - 1\<rparr>"
    have step: "relax_loop (Suc r) g (ds, cn, va) = relax_loop r g (ds', cn', ?va)"
      by (rule relax_loop_step [OF Suc.prems(5,6,1) sub Some ef]) (simp only: Array.simps r(1))
    have len: "length (remove1 u xs) = length xs - 1" using ux by (simp add: length_remove1)
    have "\<exists>ds'' cn''. relax_loop r g (ds', cn', ?va) = Some (Inr (ds'', cn'')) \<and> hm_inv cn'' \<and>
       (\<forall>w \<in> U. hm_lookup cn'' w = hm_lookup cn' w)"
    proof (rule Suc.IH [OF r(2,3), of "remove1 u xs"])
      show "dom (hm_lookup ds') = ?V" using r(4) Suc.prems(3) by simp
      show "set (remove1 u xs) \<subseteq> ?V" using Suc.prems(4) set_remove1_subset [of u xs] by blast
      show "items ?va = map Some (remove1 u xs)" by simp
      show "logical_size ?va = int (length (remove1 u xs))" using ux len
        by (cases xs) auto
      show "length (remove1 u xs) \<le> r" using len Suc.prems(7) by simp
      show "\<forall>w \<in> U. hm_lookup ds' w = Some (- 1)" using r(5) Suc.prems(8) by simp
    qed
    with step r(5) show ?thesis by auto
  qed
qed

lemma run_reports_no_route:
  fixes ha :: "Airport \<Rightarrow> hashed" and hc :: "string \<Rightarrow> hashed"
  assumes g: "graph_ok g"
    and a: "a \<in> dom (hm_lookup (vertices_map g))"
    and b: "b \<in> dom (hm_lookup (vertices_map g))"
    and nr: "\<not> reachable g a b"
    and rounds: "length (vertex_list g) \<le> rounds"
  shows "\<exists>d d'. Dijkstra_init ha hc g = Inr d \<and>
     run rounds d a b = Some (Inr ([NoRoute (airport_code a) (airport_code b)], d'))"
proof -
  let ?V = "dom (hm_lookup (vertices_map g))"
  let ?U = "{w \<in> ?V. \<not> reachable g a w}"
  from g have ex: "hm_exact (vertices_map g)" by (simp add: graph_ok_iff)
  from Dijkstra_init_inv [OF ex, of ha hc] obtain d where d0:
    "Dijkstra_init ha hc g = Inr d \<and> graph d = g \<and>
      hm_exact (distances_from_origin d) \<and> hm_exact (route_connections d) \<and>
      hm_exact (airports d) \<and> shortest_route d = ListStack_init \<and>
      hm_lookup (distances_from_origin d) = (\<lambda>a. if a \<in> ?V then Some (- 1) else None) \<and>
      hm_lookup (route_connections d) = (\<lambda>a. if a \<in> ?V then Some None else None) \<and>
      dom (hm_lookup (airports d)) = (\<lambda>v. airport_code (vertex_data v)) ` set (vertex_list g) \<and>
      (\<forall>c x. hm_lookup (airports d) c = Some x \<longrightarrow> x \<in> ?V \<and> airport_code x = c)"
    unfolding vertex_list_data [OF g] ..
  note d = d0 [THEN conjunct1] d0 [THEN conjunct2, THEN conjunct1]
    d0 [THEN conjunct2, THEN conjunct2, THEN conjunct1]
    d0 [THEN conjunct2, THEN conjunct2, THEN conjunct2, THEN conjunct1]
    d0 [THEN conjunct2, THEN conjunct2, THEN conjunct2, THEN conjunct2, THEN conjunct1]
    d0 [THEN conjunct2, THEN conjunct2, THEN conjunct2, THEN conjunct2, THEN conjunct2, THEN conjunct1]
    d0 [THEN conjunct2, THEN conjunct2, THEN conjunct2, THEN conjunct2, THEN conjunct2, THEN conjunct2,
        THEN conjunct1]
    d0 [THEN conjunct2, THEN conjunct2, THEN conjunct2, THEN conjunct2, THEN conjunct2, THEN conjunct2,
        THEN conjunct2, THEN conjunct1]
    d0 [THEN conjunct2, THEN conjunct2, THEN conjunct2, THEN conjunct2, THEN conjunct2, THEN conjunct2,
        THEN conjunct2, THEN conjunct2, THEN conjunct1]
    d0 [THEN conjunct2, THEN conjunct2, THEN conjunct2, THEN conjunct2, THEN conjunct2, THEN conjunct2,
        THEN conjunct2, THEN conjunct2, THEN conjunct2]
  note ia = hm_exact_inv [OF d(5)]
  let ?xs = "map snd (the_items (airports d))"
  have ran: "ran (hm_lookup (airports d)) \<subseteq> ?V"
  proof
    fix x assume "x \<in> ran (hm_lookup (airports d))"
    then obtain c where "hm_lookup (airports d) c = Some x" unfolding ran_def by blast
    with d(10) show "x \<in> ?V" by blast
  qed
  have xs: "set ?xs \<subseteq> ?V" unfolding the_items_ran [OF ia] by (rule ran)
  have "length ?xs = card (dom (hm_lookup (airports d)))"
    by (simp add: the_items_length n_pairs_card [OF ia])
  also have "\<dots> \<le> card (set (vertex_list g))" unfolding d(9) by (rule card_image_le) simp
  also have "\<dots> \<le> length (vertex_list g)" by (rule card_length)
  finally have len: "length ?xs \<le> rounds" using rounds by simp
  from find_shortest_paths_start [OF d(5) d(3) hm_exact_inv [OF d(4)], of rounds a]
  obtain ds va where f: "find_shortest_paths rounds d a =
       (case relax_loop rounds (graph d) (ds, setitem_result (route_connections d) a None, va) of
          None \<Rightarrow> None
        | Some (Inl e) \<Rightarrow> Some (Inl e)
        | Some (Inr (ds', cn')) \<Rightarrow>
            Some (Inr (d\<lparr>distances_from_origin := ds', route_connections := cn'\<rparr>)))"
    and ds: "hm_exact ds"
     "hm_lookup ds =
       (\<lambda>x. if x \<in> ran (hm_lookup (airports d)) \<and> x \<noteq> a then Some (- 1)
            else ((hm_lookup (distances_from_origin d))(a \<mapsto> 0)) x)"
    and va: "items va = map Some ?xs" "logical_size va = int (length (the_items (airports d)))"
    by blast
  have va2: "logical_size va = int (length ?xs)" using va(2) by simp
  let ?cn = "setitem_result (route_connections d) a None"
  note c = setitem_result_props(1,2) [OF hm_exact_inv [OF d(4)], of a None]
  have dom: "dom (hm_lookup ds) = ?V"
    using ran a by (auto simp: ds(2) d(7) split: if_splits)
  have U1: "?U \<subseteq> ?V" by blast
  have U2: "\<forall>u \<in> ?V - ?U. set (successors g u) \<inter> ?U = {}"
    by (auto intro: reachable.edge)
  have U3: "\<forall>w \<in> ?U. hm_lookup ds w = Some (- 1)"
    by (auto simp: ds(2) d(7) intro: reachable.origin)
  from relax_loop_ok [OF g U1 U2 hm_exact_inv [OF ds(1)] c(1) dom xs va(1) va2 len U3]
  obtain ds' cn' where r: "relax_loop rounds g (ds, ?cn, va) = Some (Inr (ds', cn'))"
    "hm_inv cn'" "\<forall>w \<in> ?U. hm_lookup cn' w = hm_lookup ?cn w"
    by blast
  have F: "find_shortest_paths rounds d a =
      Some (Inr (d\<lparr>distances_from_origin := ds', route_connections := cn'\<rparr>))"
    by (simp add: f d(2) r(1))
  from nr have ne: "b \<noteq> a" by (auto intro: reachable.origin)
  from b nr have "b \<in> ?U" by simp
  with r(3) have "hm_lookup cn' b = hm_lookup ?cn b" by blast
  with b ne have cb: "hm_lookup cn' b = Some None" by (simp add: c(2) d(8))
  have "vertex_list g \<noteq> []" using vertex_list_data [OF g] a by auto
  with rounds obtain k where k: "rounds = Suc k" by (cases rounds) auto
  have W: "walk_back rounds cn' a b ListStack_init =
      Some (Inr (False, push ListStack_init (airport_code b)))"
    unfolding k by (subst walk_back.simps) (simp add: ne getitem_inv [OF r(2)] cb)
  have "run rounds d a b =
      Some (Inr ([NoRoute (airport_code a) (airport_code b)],
        d\<lparr>distances_from_origin := ds', route_connections := cn',
          shortest_route := push ListStack_init (airport_code b)\<rparr>))"
    by (simp add: run_def F W d(6))
  with d(1) show ?thesis by blast
qed

lemma graph_ok_init:
  "graph_ok (\<lparr>vertices_map = empty_map 7 (default_hash_function b), store = []\<rparr> :: ('vd, 'ed) Graph)"
  by (simp add: graph_ok_iff empty_map_exact hash_ok_default empty_map_lookup_eq)

lemma graph_ok_new_vertex:
  assumes "graph_ok g"
  shows "graph_ok \<lparr>vertices_map = setitem_result (vertices_map g) d (length (store g)),
                   store = store g @ [\<lparr>vertex_data = d, edges = []\<rparr>]\<rparr>"
proof -
  from assms have ex: "hm_exact (vertices_map g)"
    and v: "\<And>u r. hm_lookup (vertices_map g) u = Some r \<Longrightarrow>
        r < length (store g) \<and> vertex_data (store g ! r) = u"
    and e: "\<And>i e. i < length (store g) \<Longrightarrow> e \<in> set (edges (store g ! i)) \<Longrightarrow>
        destination_vertex e < length (store g) \<and>
        vertex_data (store g ! destination_vertex e) \<in> dom (hm_lookup (vertices_map g))"
    unfolding graph_ok_iff by blast+
  note p = setitem_result_props(2) [OF hm_exact_inv [OF ex], of d "length (store g)"]
  show ?thesis
    unfolding graph_ok_iff
  proof (intro conjI allI impI ballI)
    show "hm_exact (vertices_map \<lparr>vertices_map = setitem_result (vertices_map g) d (length (store g)),
                   store = store g @ [\<lparr>vertex_data = d, edges = []\<rparr>]\<rparr>)"
      using ex by (simp add: setitem_result_exact)
  next
    fix u r
    assume "hm_lookup (vertices_map \<lparr>vertices_map = setitem_result (vertices_map g) d (length (store g)),
                   store = store g @ [\<lparr>vertex_data = d, edges = []\<rparr>]\<rparr>) u = Some r"
    then have "(u = d \<and> r = length (store g)) \<or> (u \<noteq> d \<and> hm_lookup (vertices_map g) u = Some r)"
      by (auto simp: p split: if_splits)
    then show "r < length (store \<lparr>vertices_map = setitem_result (vertices_map g) d (length (store g)),
                   store = store g @ [\<lparr>vertex_data = d, edges = []\<rparr>]\<rparr>)"
      "vertex_data (store \<lparr>vertices_map = setitem_result (vertices_map g) d (length (store g)),
                   store = store g @ [\<lparr>vertex_data = d, edges = []\<rparr>]\<rparr> ! r) = u"
      using v [of u r] by (auto simp: nth_append)
  next
    fix i e
    assume i: "i < length (store \<lparr>vertices_map = setitem_result (vertices_map g) d (length (store g)),
                   store = store g @ [\<lparr>vertex_data = d, edges = []\<rparr>]\<rparr>)"
      and "e \<in> set (edges (store \<lparr>vertices_map = setitem_result (vertices_map g) d (length (store g)),
                   store = store g @ [\<lparr>vertex_data = d, edges = []\<rparr>]\<rparr> ! i))"
    then have "i < length (store g) \<and> e \<in> set (edges (store g ! i))"
      by (cases "i < length (store g)") (auto simp: nth_append less_Suc_eq)
    from e [OF this [THEN conjunct1] this [THEN conjunct2]]
    show "destination_vertex e <
        length (store \<lparr>vertices_map = setitem_result (vertices_map g) d (length (store g)),
                   store = store g @ [\<lparr>vertex_data = d, edges = []\<rparr>]\<rparr>)"
      "vertex_data (store \<lparr>vertices_map = setitem_result (vertices_map g) d (length (store g)),
                   store = store g @ [\<lparr>vertex_data = d, edges = []\<rparr>]\<rparr> ! destination_vertex e)
        \<in> dom (hm_lookup (vertices_map \<lparr>vertices_map = setitem_result (vertices_map g) d (length (store g)),
                   store = store g @ [\<lparr>vertex_data = d, edges = []\<rparr>]\<rparr>))"
      by (auto simp: nth_append p)
  qed
qed

lemma graph_ok_add_vertex:
  assumes "graph_ok g"
  shows "\<exists>g'. add_vertex g d = Inr g' \<and> graph_ok g'"
proof -
  from assms have "hm_inv (vertices_map g)" by (simp add: graph_ok_iff hm_exact_def)
  from add_vertex_inv [OF this, of d] graph_ok_new_vertex [OF assms, of d] show ?thesis by simp
qed

lemma graph_ok_Vertex_add_edge:
  assumes "graph_ok g" "destination_vertex e < length (store g)"
    "vertex_data (store g ! destination_vertex e) \<in> dom (hm_lookup (vertices_map g))"
  shows "graph_ok (Vertex_add_edge g r e)"
proof -
  let ?st = "(store g)[r := (store g ! r)\<lparr>edges := LinkedList_append (edges (store g ! r)) e\<rparr>]"
  from assms(1) have ex: "hm_exact (vertices_map g)"
    and v: "\<And>u r. hm_lookup (vertices_map g) u = Some r \<Longrightarrow>
        r < length (store g) \<and> vertex_data (store g ! r) = u"
    and ed: "\<And>i e. i < length (store g) \<Longrightarrow> e \<in> set (edges (store g ! i)) \<Longrightarrow>
        destination_vertex e < length (store g) \<and>
        vertex_data (store g ! destination_vertex e) \<in> dom (hm_lookup (vertices_map g))"
    unfolding graph_ok_iff by blast+
  have vd: "vertex_data (?st ! i) = vertex_data (store g ! i)" if "i < length (store g)" for i
    using that by (cases "i = r") simp_all
  have es: "set (edges (?st ! i)) \<subseteq> insert e (set (edges (store g ! i)))"
    if "i < length (store g)" for i
    using that by (cases "i = r") (auto simp: LinkedList_append_def)
  have g': "vertices_map (Vertex_add_edge g r e) = vertices_map g"
    "store (Vertex_add_edge g r e) = ?st"
    by (simp_all add: Vertex_add_edge_def)
  show ?thesis
    unfolding graph_ok_iff g'
  proof (intro conjI allI impI ballI)
    show "hm_exact (vertices_map g)" by (rule ex)
  next
    fix u r' assume "hm_lookup (vertices_map g) u = Some r'"
    from v [OF this] show "r' < length ?st" "vertex_data (?st ! r') = u" by (simp_all add: vd)
  next
    fix i e' assume i: "i < length ?st" and e': "e' \<in> set (edges (?st ! i))"
    from i have i': "i < length (store g)" by simp
    from es [OF i'] e' have "e' = e \<or> e' \<in> set (edges (store g ! i))" by blast
    then have "destination_vertex e' < length (store g) \<and>
        vertex_data (store g ! destination_vertex e') \<in> dom (hm_lookup (vertices_map g))"
      using assms(2,3) ed [OF i'] by blast
    then show "destination_vertex e' < length ?st"
      "vertex_data (?st ! destination_vertex e') \<in> dom (hm_lookup (vertices_map g))"
      by (simp_all add: vd)
  qed
qed

lemma graph_ok_endpoint:
  assumes "graph_ok g" "endpoint_result g d = (r, g')"
  shows "graph_ok g'" "hm_lookup (vertices_map g') d = Some r"
proof -
  from assms(1) have i: "hm_inv (vertices_map g)" by (simp add: graph_ok_iff hm_exact_def)
  show "graph_ok g'"
    using assms graph_ok_new_vertex [OF assms(1), of d]
    by (auto simp: endpoint_result_def split: option.splits)
  show "hm_lookup (vertices_map g') d = Some r"
    using assms(2) by (auto simp: endpoint_result_def setitem_result_props(2) [OF i] split: option.splits)
qed

lemma graph_ok_add_edge:
  assumes "graph_ok g"
  shows "\<exists>g'. add_edge g v1 v2 ed w = Inr g' \<and> graph_ok g'"
proof -
  from assms have i: "hm_inv (vertices_map g)" by (simp add: graph_ok_iff hm_exact_def)
  obtain r1 g1 where e1: "endpoint_result g v1 = (r1, g1)" by (cases "endpoint_result g v1")
  obtain r2 g2 where e2: "endpoint_result g1 v2 = (r2, g2)" by (cases "endpoint_result g1 v2")
  note k1 = graph_ok_endpoint [OF assms e1]
  note k2 = graph_ok_endpoint [OF k1(1) e2]
  from k2 have "r2 < length (store g2)" "vertex_data (store g2 ! r2) = v2"
    unfolding graph_ok_iff by blast+
  with k2 have "graph_ok (Vertex_add_edge g2 r1 \<lparr>destination_vertex = r2, edge_data = ed, weight = w\<rparr>)"
    by (intro graph_ok_Vertex_add_edge) auto
  then have "graph_ok (add_edge_result g v1 v2 ed w)"
    by (simp add: add_edge_result_def e1 e2)
  with add_edge_inv [OF i, of v1 v2 ed w] show ?thesis by simp
qed

lemma constructed_ok: "constructed b g \<Longrightarrow> graph_ok g"
proof (induction rule: constructed.induct)
  case (new g)
  then show ?case by (auto simp: Graph_init_eq graph_ok_init)
next
  case (vertex g d g')
  with graph_ok_add_vertex [of g d] show ?case by auto
next
  case (edge g v1 v2 ed w g')
  with graph_ok_add_edge [of g v1 v2 ed w] show ?case by auto
qed

lemma constructed_run_reports_no_route:
  fixes ha :: "Airport \<Rightarrow> hashed" and hc :: "string \<Rightarrow> hashed"
  assumes "constructed ha g"
    and "HashMap_contains (vertices_map g) a = Inr True"
    and "HashMap_contains (vertices_map g) b = Inr True"
    and "\<not> reachable g a b"
    and "HashMap_len (vertices_map g) = Inr n" "n \<le> int rounds"
  shows "\<exists>d d'. Dijkstra_init ha hc g = Inr d \<and>
     run rounds d a b = Some (Inr ([NoRoute (airport_code a) (airport_code b)], d'))"
proof -
  note ok = constructed_ok [OF assms(1)]
  then have ex: "hm_exact (vertices_map g)" by (simp add: graph_ok_iff)
  note i = hm_exact_inv [OF ex]
  from assms(2,3) have ab: "a \<in> dom (hm_lookup (vertices_map g))" "b \<in> dom (hm_lookup (vertices_map g))"
    by (auto simp: contains_inv [OF i] split: option.splits)
  from assms(5) have "n = count (vertices_map g)" by (simp add: len_inv [OF i])
  with ex have "n = int (length (vertex_list g))"
    by (simp add: hm_exact_def vertex_list_def the_items_length)
  with assms(6) have "length (vertex_list g) \<le> rounds" by simp
  from run_reports_no_route [OF ok ab assms(4) this] show ?thesis .
qed

lemma apart_graph_built:
  "bindE (Graph_init ha) (\<lambda>g. bindE (add_vertex g airport_A) (\<lambda>g. add_vertex g airport_B))
     = Inr (apart_graph ha)"
proof -
  note i = map_ABC_steps(1,3) [of ha, THEN hm_exact_inv]
  show ?thesis by (simp add: Graph_init_eq add_vertex_inv i apart_graph_def)
qed

lemma apart_graph_ok: "graph_ok (apart_graph ha)"
  using graph_ok_new_vertex [OF graph_ok_new_vertex [OF graph_ok_init [of ha], of airport_A], of airport_B]
  by (simp add: apart_graph_def)

lemma apart_graph_lookup:
  "hm_lookup (vertices_map (apart_graph ha)) = [airport_A \<mapsto> 0, airport_B \<mapsto> Suc 0]"
  by (simp add: apart_graph_def map_ABC_steps(6))

lemma apart_graph_successors: "successors (apart_graph ha) u = []"
  by (simp add: successors_def apart_graph_lookup) (simp add: apart_graph_def)

lemma apart_graph_reachable: "reachable (apart_graph ha) a v \<Longrightarrow> v = a"
  by (induction rule: reachable.induct) (simp_all add: apart_graph_successors)

lemma apart_graph_length: "length (vertex_list (apart_graph ha :: (Airport, 'ed) Graph)) = 2"
proof -
  let ?g = "apart_graph ha :: (Airport, 'ed) Graph"
  have "graph_ok ?g" by (rule apart_graph_ok)
  then have i: "hm_inv (vertices_map ?g)" by (simp add: graph_ok_iff hm_exact_def)
  have "dom (hm_lookup (vertices_map ?g)) = {airport_A, airport_B}"
    by (auto simp: apart_graph_lookup)
  then have "card (dom (hm_lookup (vertices_map ?g))) = 2" by simp
  then show ?thesis by (simp add: vertex_list_def the_items_length n_pairs_card [OF i])
qed

lemma apart_graph_constructed: "constructed ha (apart_graph ha)"
proof -
  note i = map_ABC_steps(1,3) [of ha, THEN hm_exact_inv]
  let ?g0 = "\<lparr>vertices_map = empty_map 7 (default_hash_function ha), store = []\<rparr>
    :: (Airport, 'a) Graph"
  let ?g1 = "\<lparr>vertices_map = setitem_result (empty_map 7 (default_hash_function ha)) airport_A 0,
      store = [\<lparr>vertex_data = airport_A, edges = []\<rparr>]\<rparr> :: (Airport, 'a) Graph"
  have "constructed ha ?g0" by (rule constructed.new) (rule Graph_init_eq)
  then have "constructed ha ?g1"
    by (rule constructed.vertex [where d = airport_A]) (simp add: add_vertex_inv i)
  then show ?thesis
    by (rule constructed.vertex [where d = airport_B]) (simp add: add_vertex_inv i apart_graph_def)
qed

lemma run_apart_graph:
  fixes ha :: "Airport \<Rightarrow> hashed" and hc :: "string \<Rightarrow> hashed"
  assumes "2 \<le> rounds"
  shows "\<exists>g d d'.
     bindE (Graph_init ha) (\<lambda>g. bindE (add_vertex g airport_A) (\<lambda>g. add_vertex g airport_B)) = Inr g \<and>
     Dijkstra_init ha hc g = Inr d \<and>
     run rounds d airport_A airport_B = Some (Inr ([NoRoute ''A'' ''B''], d'))"
proof -
  let ?g = "apart_graph ha :: (Airport, 'a) Graph"
  have nr: "\<not> reachable ?g airport_A airport_B"
    using apart_graph_reachable [of ha airport_A airport_B] by auto
  have len: "length (vertex_list ?g) \<le> rounds" using assms by (simp add: apart_graph_length)
  from run_reports_no_route [OF apart_graph_ok _ _ nr len, of ha hc]
  obtain d d' where "Dijkstra_init ha hc ?g = Inr d"
    "run rounds d airport_A airport_B = Some (Inr ([NoRoute ''A'' ''B''], d'))"
    by (auto simp: apart_graph_lookup)
  then show ?thesis
    apply -
    apply (rule exI [of _ ?g])
    apply (rule exI [of _ d])
    apply (rule exI [of _ d'])
    apply (simp add: apart_graph_built)
    done
qed
section \<open>The claims\<close>


text \<open>
  C10. An Array constructed with size 0 (the default constructor), whatever its default
  item value, cannot be appended to: the doubled physical size is still 0, the new numpy
  array is empty, and storing the item at index 0 raises IndexError.
\<close>

theorem append_to_empty_Array_raises:
  "Array_append (Array_init 0 dv) x = Inl IndexError"
  by (simp add: Array_append_def Array_init_def np_set_def)


text \<open>
  C8. Whatever capacity and load-factor threshold are passed to the constructor (with a
  callable hash function), the constructed map's threshold is the class default 0.6: the
  argument is never stored.
\<close>

theorem HashMap_init_ignores_threshold: "\<exists>m. HashMap_init c (Some h) t = Inr (m :: ('k, 'v) HashMap) \<and>
        load_factor_threshold m = default_load_factor_threshold \<and>
        default_load_factor_threshold = 0.6"
  by (simp add: HashMap_init_eq default_load_factor_threshold_def)

text \<open>
  C7. The constructor rejects a hash function that is not callable with TypeError, but it
  accepts a negative capacity (the map then has no bucket and a logical size of -1) and
  any load-factor threshold (1.5 and -2 are both replaced by 0.6), although its docstring
  promises a ValueError for each.
\<close>

theorem HashMap_init_accepts_bad_arguments:
  "(\<exists>m. HashMap_init (- 1) (Some h) t = Inr (m :: ('k, 'v) HashMap) \<and> items (buckets m) = [] \<and>
        logical_size (buckets m) = - 1) \<and>
   (\<exists>m. HashMap_init 7 (Some h) (3 / 2) = Inr (m :: ('k, 'v) HashMap) \<and>
        load_factor_threshold m = 0.6) \<and>
   (\<exists>m. HashMap_init 7 (Some h) (- 2) = Inr (m :: ('k, 'v) HashMap) \<and>
        load_factor_threshold m = 0.6) \<and>
   HashMap_init c None t = (Inl TypeError :: error + ('k, 'v) HashMap)"
  by (simp add: HashMap_init_eq empty_map_def default_load_factor_threshold_def)
     (simp add: HashMap_init_def)

text \<open>
  C2. \<^verbatim>\<open>__delitem__\<close> removes the pair from its chain and leaves \<^verbatim>\<open>_count\<close> as it was.
  On \<^verbatim>\<open>m = HashMap(); m[k] = v; del m[k]\<close>, for every key, value and builtin hash, the
  map holds no key and \<^verbatim>\<open>len(m)\<close> is still 1.
\<close>

theorem len_after_delete_is_stale:
  "\<exists>m0 m1 m2. HashMap_init 7 (Some (default_hash_function b)) t = Inr (m0 :: ('k, 'v) HashMap) \<and>
     HashMap_setitem m0 k v = Inr m1 \<and> HashMap_len m1 = Inr 1 \<and>
     HashMap_delitem m1 k = Inr m2 \<and> HashMap_len m2 = Inr 1 \<and> HashMap_keys m2 = Inr []"
proof -
  let ?h = "default_hash_function b"
  let ?m0 = "empty_map 7 ?h :: ('k, 'v) HashMap"
  let ?m1 = "setitem_result ?m0 k v"
  let ?m2 = "delete_result ?m1 k"
  have i0: "hm_inv ?m0" by (simp add: empty_map_inv hash_ok_default)
  have l0: "hm_lookup ?m0 = Map.empty" by (simp add: empty_map_lookup_eq hash_ok_default)
  have i1: "hm_inv ?m1" using i0 by (rule setitem_result_props(1))
  have l1: "hm_lookup ?m1 = [k \<mapsto> v]" using setitem_result_props(2) [OF i0] l0 by simp
  have nr: "\<not> needs_resize ?m0" by (simp add: needs_resize_def default_load_factor_threshold_def)
  have c1: "count ?m1 = 1" using setitem_result_props(5) [OF i0, of k v] l0 nr by simp
  have i2: "hm_inv ?m2" using i1 by (rule delete_result_inv) (simp add: l1)
  have l2: "hm_lookup ?m2 = Map.empty" using delete_result_lookup [OF i1, of k v] l1 by simp
  have "HashMap_delitem ?m1 k = Inr ?m2" by (simp add: delitem_inv [OF i1] l1)
  moreover have "HashMap_keys ?m2 = Inr []" by (simp add: keys_inv [OF i2] the_items_empty [OF i2 l2])
  moreover have "HashMap_len ?m2 = Inr 1" "HashMap_len ?m1 = Inr 1" by (simp_all add: HashMap_len_def c1)
  ultimately show ?thesis
    using setitem_inv [OF i0, of k v] by (simp add: HashMap_init_eq)
qed

text \<open>
  C5, as the spec states it, fails: with 3 keys in 4 buckets the load factor 0.75 exceeds
  0.6, the key 4 is new, and the next set rehashes into 7 buckets, while the
  smallest prime greater than or equal to 3 / 0.6 = 5 is 5.
\<close>

theorem capacity_not_smallest_prime_ge:
  "\<exists>m m'. bindE (HashMap_init 4 (Some (default_hash_function Scalar)) 0.6) (\<lambda>m.
           bindE (HashMap_setitem m 1 ''a'') (\<lambda>m.
           bindE (HashMap_setitem m 2 ''b'') (\<lambda>m. HashMap_setitem m 3 ''c''))) = Inr m \<and>
     HashMap_len m = Inr 3 \<and> load_factor m = Inr (3 / 4) \<and>
     load_factor_threshold m = 0.6 \<and> HashMap_contains m (4::int) = Inr False \<and>
     HashMap_setitem m 4 ''d'' = Inr m' \<and> capacity m' = Inr 7 \<and>
     \<not> smallest_prime_ge (3 / 0.6) 7 \<and> smallest_prime_ge (3 / 0.6) 5"
proof -
  note i = three_in_four_props(1)
  let ?m' = "setitem_result three_in_four 4 ''d''"
  have r: "needs_resize three_in_four"
    by (simp add: needs_resize_def three_in_four_props threshold_inv [OF i])
  have nc: "new_cap three_in_four = 7"
    by (simp add: new_cap_def three_in_four_props default_load_factor_threshold_def nextprime_5)
  note p = setitem_result_props [OF i, of 4 "''d''"]
  have p5: "is_prime 5" by (simp add: is_prime_def)
  have "HashMap_len three_in_four = Inr 3" by (simp add: HashMap_len_def three_in_four_props)
  moreover have "load_factor three_in_four = Inr (3 / 4)"
    by (simp add: load_factor_inv [OF i] three_in_four_props)
  moreover have "HashMap_contains three_in_four 4 = Inr False"
    by (simp add: contains_inv [OF i] three_in_four_props)
  moreover have "HashMap_setitem three_in_four 4 ''d'' = Inr ?m'" by (rule setitem_inv [OF i])
  moreover have "capacity ?m' = Inr 7"
    using capacity_inv [OF p(1)] p(6) r nc by simp
  moreover have "\<not> smallest_prime_ge (3 / 0.6) 7"
    using p5 by (auto simp: smallest_prime_ge_def dest!: spec [of _ 5])
  moreover have "smallest_prime_ge (3 / 0.6) 5"
    using p5 by (simp add: smallest_prime_ge_def)
  ultimately show ?thesis
    using three_in_four_built threshold_inv [OF i] by blast
qed

text \<open>
  C5, amended. On a map that satisfies the invariant (every map built by the constructor
  with a positive capacity and changed by set and delete only does), when set finds the
  load factor above the threshold it first rehashes into a new table whose capacity is
  the smallest prime strictly greater than the integer part of \<open>count / threshold\<close>,
  and then inserts the pair into that table: the result has that capacity and holds the
  value under the key.
\<close>

theorem setitem_resize_capacity:
  assumes "hm_inv m" "load_factor m = Inr lf" "load_factor_threshold m < lf"
  shows "\<exists>n r m'. new_bucket_capacity m = Inr n \<and>
           smallest_prime_above \<lfloor>real_of_int (count m) / load_factor_threshold m\<rfloor> n \<and>
           resize_and_rehash m n (hash_function m) = Inr r \<and> capacity r = Inr n \<and>
           insert_pair r k v = Inr m' \<and> HashMap_setitem m k v = Inr m' \<and>
           capacity m' = Inr n \<and> HashMap_getitem m' k = Inr v"
proof -
  let ?n = "new_cap m" and ?r = "resized m (new_cap m)"
  let ?m' = "insert_result ?r k v"
  from assms have nr: "needs_resize m" using load_exceeded_iff [OF assms(1)] by blast
  have ri: "hm_inv ?r" using assms(1) new_cap_pos by (rule resized_props(1))
  have mi: "hm_inv ?m'" using ri by (rule insert_result_inv)
  have "new_bucket_capacity m = Inr ?n" using assms(1) by (rule new_bucket_capacity_inv)
  moreover have "smallest_prime_above \<lfloor>real_of_int (count m) / load_factor_threshold m\<rfloor> ?n"
    using assms(1) by (rule new_cap_smallest)
  moreover have "resize_and_rehash m ?n (hash_function m) = Inr ?r"
    using assms(1) new_cap_pos new_cap_bound [OF assms(1)] by (rule resize_and_rehash_inv)
  moreover have "capacity ?r = Inr ?n" using assms(1) new_cap_pos by (rule capacity_resized)
  moreover have "insert_pair ?r k v = Inr ?m'" using ri by (rule insert_pair_inv)
  moreover have "HashMap_setitem m k v = Inr ?m'"
    using setitem_inv [OF assms(1), of k v] nr by (simp add: setitem_result_def after_resize_def)
  moreover have "capacity ?m' = Inr ?n"
    using capacity_inv [OF mi] resized_props(3) [OF assms(1) new_cap_pos [of m]] new_cap_pos [of m]
    by simp
  moreover have "HashMap_getitem ?m' k = Inr v"
    by (simp add: getitem_inv [OF mi] insert_result_lookup [OF ri])
  ultimately show ?thesis by blast
qed

theorem setitem_resize_capacity_witness:
  "\<exists>m. hm_inv m \<and> load_factor m = Inr (3 / 4) \<and> load_factor_threshold m < 3 / 4 \<and>
     (\<exists>m'. HashMap_setitem m (4::int) ''d'' = Inr m' \<and> capacity m' = Inr 7 \<and>
        HashMap_getitem m' 4 = Inr ''d'')"
proof -
  note i = three_in_four_props(1)
  have lf: "load_factor three_in_four = Inr (3 / 4)"
    by (simp add: load_factor_inv [OF i] three_in_four_props)
  have t: "load_factor_threshold three_in_four < 3 / 4"
    by (simp add: threshold_inv [OF i])
  have n: "new_bucket_capacity three_in_four = Inr 7"
    by (simp add: new_bucket_capacity_inv [OF i] new_cap_def three_in_four_props
        default_load_factor_threshold_def nextprime_5)
  from setitem_resize_capacity [OF i lf t, of 4 "''d''"] n
  have "\<exists>m'. HashMap_setitem three_in_four 4 ''d'' = Inr m' \<and> capacity m' = Inr 7 \<and>
        HashMap_getitem m' 4 = Inr ''d''"
    by auto
  with i lf t show ?thesis by blast
qed

text \<open>
  C6. The rehash that set triggers when the load factor exceeds the threshold preserves
  the content: afterwards get returns for every key what it returned before (the value,
  or KeyError for a key that is absent), and the keys are the same.
\<close>

theorem resize_preserves_content:
  assumes "hm_inv m" "load_factor m = Inr lf" "load_factor_threshold m < lf"
  shows "\<exists>n r. new_bucket_capacity m = Inr n \<and>
           resize_and_rehash m n (hash_function m) = Inr r \<and>
           (\<forall>k. HashMap_getitem r k = HashMap_getitem m k) \<and>
           (\<exists>ks ks'. HashMap_keys m = Inr ks \<and> HashMap_keys r = Inr ks' \<and>
               distinct ks \<and> distinct ks' \<and> set ks' = set ks)"
proof -
  let ?n = "new_cap m" and ?r = "resized m (new_cap m)"
  have ri: "hm_inv ?r" using assms(1) new_cap_pos by (rule resized_props(1))
  have rl: "hm_lookup ?r = hm_lookup m" using assms(1) new_cap_pos by (rule resized_props(2))
  have "new_bucket_capacity m = Inr ?n" using assms(1) by (rule new_bucket_capacity_inv)
  moreover have "resize_and_rehash m ?n (hash_function m) = Inr ?r"
    using assms(1) new_cap_pos new_cap_bound [OF assms(1)] by (rule resize_and_rehash_inv)
  moreover have "\<forall>k. HashMap_getitem ?r k = HashMap_getitem m k"
    by (simp add: getitem_inv [OF ri] getitem_inv [OF assms(1)] rl)
  moreover have "set (map fst (the_items ?r)) = set (map fst (the_items m))"
    using the_items_map_of [OF ri] the_items_map_of [OF assms(1)] rl
    by (metis dom_map_of_conv_image_fst set_map)
  ultimately show ?thesis
    using the_items_distinct [OF ri] the_items_distinct [OF assms(1)]
    by (simp add: keys_inv [OF ri] keys_inv [OF assms(1)])
qed

theorem resize_preserves_content_witness:
  "\<exists>m. hm_inv m \<and> load_factor m = Inr (3 / 4) \<and> load_factor_threshold m < 3 / 4 \<and>
     (\<exists>r. resize_and_rehash m 7 (hash_function m) = Inr r \<and>
        HashMap_getitem m (2::int) = Inr ''b'' \<and> HashMap_getitem r 2 = Inr ''b'' \<and>
        HashMap_getitem m 4 = Inl KeyError \<and> HashMap_getitem r 4 = Inl KeyError)"
proof -
  note i = three_in_four_props(1)
  have lf: "load_factor three_in_four = Inr (3 / 4)"
    by (simp add: load_factor_inv [OF i] three_in_four_props)
  have t: "load_factor_threshold three_in_four < 3 / 4"
    by (simp add: threshold_inv [OF i])
  have n: "new_bucket_capacity three_in_four = Inr 7"
    by (simp add: new_bucket_capacity_inv [OF i] new_cap_def three_in_four_props
        default_load_factor_threshold_def nextprime_5)
  have g: "HashMap_getitem three_in_four 2 = Inr ''b''" "HashMap_getitem three_in_four 4 = Inl KeyError"
    by (simp_all add: getitem_inv [OF i] three_in_four_props)
  from resize_preserves_content [OF i lf t] n g
  have "\<exists>r. resize_and_rehash three_in_four 7 (hash_function three_in_four) = Inr r \<and>
        HashMap_getitem three_in_four 2 = Inr ''b'' \<and> HashMap_getitem r 2 = Inr ''b'' \<and>
        HashMap_getitem three_in_four 4 = Inl KeyError \<and> HashMap_getitem r 4 = Inl KeyError"
    by auto
  with i lf t show ?thesis by blast
qed

text \<open>
  C3. From the empty graph, \<^verbatim>\<open>add_edge("A", "B", "x", 5.0)\<close> gives one edge from "A", to
  the vertex "B", labelled "x" with weight 5, and a second \<^verbatim>\<open>add_edge("A", "B", "y", 7.0)\<close>
  gives two. But \<^verbatim>\<open>remove_edge("A", "B", "x")\<close> then raises AttributeError, whatever the
  builtin hash: its loop over \<^verbatim>\<open>self._vertices\<close> yields the key "A" or "B", and a string
  has no attribute \<^verbatim>\<open>data\<close>.
\<close>

theorem remove_edge_raises_AttributeError:
  fixes b :: "string \<Rightarrow> hashed"
  shows "\<exists>g1 g2 :: (string, string) Graph.
     bindE (Graph_init b) (\<lambda>g. add_edge g ''A'' ''B'' ''x'' 5) = Inr g1 \<and>
     bindE (edges_from g1 ''A'') (\<lambda>a. Inr (Array_iter a)) =
       Inr [Some \<lparr>destination_vertex = 1, edge_data = ''x'', weight = 5\<rparr>] \<and>
     vertex_data (store g1 ! 1) = ''B'' \<and>
     add_edge g1 ''A'' ''B'' ''y'' 7 = Inr g2 \<and>
     bindE (edges_from g2 ''A'') (\<lambda>a. Inr (Array_iter a)) =
       Inr [Some \<lparr>destination_vertex = 1, edge_data = ''x'', weight = 5\<rparr>,
            Some \<lparr>destination_vertex = 1, edge_data = ''y'', weight = 7\<rparr>] \<and>
     vertex_data (store g2 ! 1) = ''B'' \<and>
     remove_edge g2 ''A'' ''B'' ''x'' = Inl AttributeError"
proof -
  have r: "remove_edge (graph_xy b) ''A'' ''B'' ''x'' = Inl AttributeError"
    by (rule remove_edge_inv [where d = "''A''" and r = 0])
       (simp_all add: graph_xy_def map_AB_props)
  have s: "vertex_data (store (graph_x b) ! Suc 0) = ''B''"
    "vertex_data (store (graph_xy b) ! Suc 0) = ''B''"
    by (simp_all add: graph_x_def graph_xy_def)
  show ?thesis
    apply (rule exI [of _ "graph_x b"])
    apply (rule exI [of _ "graph_xy b"])
    apply (simp add: graph_x_built graph_xy_built edges_from_graph_x edges_from_graph_xy r s
         Array_iter_def edge_x_def edge_y_def)
    done
qed

text \<open>
  C9. When the vertex data \<open>d\<close> is present in the graph, \<^verbatim>\<open>add_vertex(d)\<close> stores a newly
  allocated vertex under \<open>d\<close>, with the data \<open>d\<close> and no edges: \<^verbatim>\<open>edges_from(d)\<close> is
  then an empty Array, whatever edges the replaced vertex had. The other keys and the
  objects allocated before are left as they were.
\<close>

theorem add_vertex_replaces:
  assumes "hm_inv (vertices_map g)" "HashMap_contains (vertices_map g) d = Inr True"
  shows "\<exists>g'. add_vertex g d = Inr g' \<and>
           HashMap_getitem (vertices_map g') d = Inr (length (store g)) \<and>
           store g' ! length (store g) = \<lparr>vertex_data = d, edges = []\<rparr> \<and>
           edges_from g' d = Inr (Array_init 0 None) \<and>
           (\<forall>d'. d' \<noteq> d \<longrightarrow>
              HashMap_getitem (vertices_map g') d' = HashMap_getitem (vertices_map g) d') \<and>
           (\<forall>r < length (store g). store g' ! r = store g ! r)"
proof -
  let ?r = "length (store g)"
  let ?m = "setitem_result (vertices_map g) d ?r"
  let ?g' = "\<lparr>vertices_map = ?m, store = store g @ [\<lparr>vertex_data = d, edges = []\<rparr>]\<rparr>"
  note p = setitem_result_props [OF assms(1), of d ?r]
  have "add_vertex g d = Inr ?g'"
    by (simp add: add_vertex_def Vertex_init_def setitem_inv [OF assms(1)])
  moreover have "HashMap_getitem ?m d = Inr ?r" by (simp add: getitem_inv [OF p(1)] p(2))
  moreover have "edges_from ?g' d = Inr (Array_init 0 None)"
    by (simp add: edges_from_inv p(1) p(2) Array_init_def)
  moreover have "\<forall>d'. d' \<noteq> d \<longrightarrow> HashMap_getitem ?m d' = HashMap_getitem (vertices_map g) d'"
    by (simp add: getitem_inv [OF p(1)] getitem_inv [OF assms(1)] p(2))
  ultimately show ?thesis by (simp add: nth_append)
qed

theorem add_vertex_replaces_witness:
  "\<exists>g :: (string, string) Graph.
     hm_inv (vertices_map g) \<and> HashMap_contains (vertices_map g) ''A'' = Inr True \<and>
     bindE (edges_from g ''A'') (\<lambda>a. Inr (Array_iter a)) =
       Inr [Some \<lparr>destination_vertex = 1, edge_data = ''x'', weight = 5\<rparr>] \<and>
     (\<exists>g'. add_vertex g ''A'' = Inr g' \<and>
        bindE (edges_from g' ''A'') (\<lambda>a. Inr (Array_iter a)) = Inr [])"
proof -
  let ?g = "graph_x (\<lambda>s. Elements (map of_char s))"
  have i: "hm_inv (vertices_map ?g)" by (simp add: graph_x_def map_AB_props)
  have c: "HashMap_contains (vertices_map ?g) ''A'' = Inr True"
    by (simp add: contains_inv [OF i]) (simp add: graph_x_def map_AB_props)
  from add_vertex_replaces [OF i c]
  have "\<exists>g'. add_vertex ?g ''A'' = Inr g' \<and>
        bindE (edges_from g' ''A'') (\<lambda>a. Inr (Array_iter a)) = Inr []"
    by (auto simp: Array_init_def Array_iter_def)
  with i c show ?thesis
    by (intro exI [of _ ?g]) (simp add: edges_from_graph_x Array_iter_def edge_x_def)
qed

text \<open>
  C1. The graph with the vertices A, B and C and the directed edges A to B of weight 1, B to
  C of weight 2 and A to C of weight 10 is built by three calls of \<^verbatim>\<open>add_edge\<close> on the
  empty graph. On the engine constructed from it, \<^verbatim>\<open>run\<close> from A to C prints the route
  A to B, B to C and the total 3, not the direct edge of weight 10, and the distance of C in
  the table is 3 afterwards. This holds for every builtin hash and all edge labels, as soon
  as the bound on the rounds of the two loops is 3 or more.
\<close>

theorem run_takes_the_lighter_route:
  fixes ha :: "Airport \<Rightarrow> hashed" and hc :: "string \<Rightarrow> hashed"
  assumes "3 \<le> rounds"
  shows "\<exists>g d d'.
     bindE (Graph_init ha) (\<lambda>g.
     bindE (add_edge g airport_A airport_B e1 1) (\<lambda>g.
     bindE (add_edge g airport_B airport_C e2 2) (\<lambda>g.
       add_edge g airport_A airport_C e3 10))) = Inr g \<and>
     Dijkstra_init ha hc g = Inr d \<and>
     run rounds d airport_A airport_C =
       Some (Inr ([RouteHeader ''A'' ''C'', Leg ''A'' ''B'', Leg ''B'' ''C'', TotalMiles 3], d')) \<and>
     HashMap_getitem (distances_from_origin d') airport_C = Inr 3"
proof -
  have "\<exists>r. rounds = Suc (Suc (Suc r))"
  proof -
    from assms have "rounds = Suc (Suc (Suc (rounds - 3)))" by simp
    then show ?thesis ..
  qed
  then obtain r where r: "rounds = Suc (Suc (Suc r))" ..
  from route_graph_run [of ha hc e1 e2 e3 r] obtain d d' where
    "Dijkstra_init ha hc (route_graph ha e1 e2 e3) = Inr d"
    "run rounds d airport_A airport_C =
       Some (Inr ([RouteHeader ''A'' ''C'', Leg ''A'' ''B'', Leg ''B'' ''C'', TotalMiles 3], d'))"
    "HashMap_getitem (distances_from_origin d') airport_C = Inr 3"
    unfolding r by (elim exE conjE)
  then show ?thesis
    apply -
    apply (rule exI [of _ "route_graph ha e1 e2 e3"])
    apply (rule exI [of _ d])
    apply (rule exI [of _ d'])
    apply (simp add: route_graph_built)
    done
qed

theorem run_takes_the_lighter_route_witness:
  "(3::nat) \<le> 3 \<and>
   (\<exists>g d d'.
     bindE (Graph_init (\<lambda>a. Scalar (airport_id a))) (\<lambda>g.
     bindE (add_edge g airport_A airport_B ''AB'' 1) (\<lambda>g.
     bindE (add_edge g airport_B airport_C ''BC'' 2) (\<lambda>g.
       add_edge g airport_A airport_C ''AC'' 10))) = Inr g \<and>
     Dijkstra_init (\<lambda>a. Scalar (airport_id a)) (\<lambda>s. Elements (map of_char s)) g = Inr d \<and>
     run 3 d airport_A airport_C =
       Some (Inr ([RouteHeader ''A'' ''C'', Leg ''A'' ''B'', Leg ''B'' ''C'', TotalMiles 3], d')) \<and>
     HashMap_getitem (distances_from_origin d') airport_C = Inr 3)"
proof (rule conjI)
  show le: "(3::nat) \<le> 3" by simp
  show "\<exists>g d d'.
     bindE (Graph_init (\<lambda>a. Scalar (airport_id a))) (\<lambda>g.
     bindE (add_edge g airport_A airport_B ''AB'' 1) (\<lambda>g.
     bindE (add_edge g airport_B airport_C ''BC'' 2) (\<lambda>g.
       add_edge g airport_A airport_C ''AC'' 10))) = Inr g \<and>
     Dijkstra_init (\<lambda>a. Scalar (airport_id a)) (\<lambda>s. Elements (map of_char s)) g = Inr d \<and>
     run 3 d airport_A airport_C =
       Some (Inr ([RouteHeader ''A'' ''C'', Leg ''A'' ''B'', Leg ''B'' ''C'', TotalMiles 3], d')) \<and>
     HashMap_getitem (distances_from_origin d') airport_C = Inr 3"
    by (rule run_takes_the_lighter_route [OF le])
qed


text \<open>
  C4. After \<^verbatim>\<open>add_vertex(A)\<close>, \<^verbatim>\<open>add_vertex(B)\<close>, \<^verbatim>\<open>add_vertex(C)\<close> and
  \<^verbatim>\<open>remove_vertex(C)\<close> the graph contains the vertices A and B and no edge leaves either
  of them, so there is no path from A to B. The constructor of the engine raises
  AttributeError on this graph, whatever the builtin hash: the count of the vertex map is
  still 3, \<^verbatim>\<open>graph.vertices\<close> is an Array of three slots of which the last is \<^verbatim>\<open>None\<close>,
  and \<^verbatim>\<open>None.vertex_data\<close> raises. No run from A to B can report anything.
\<close>

theorem Dijkstra_init_raises_after_remove_vertex:
  fixes ha :: "Airport \<Rightarrow> hashed" and hc :: "string \<Rightarrow> hashed"
  shows "\<exists>g :: (Airport, 'ed) Graph.
     bindE (Graph_init ha) (\<lambda>g.
     bindE (add_vertex g airport_A) (\<lambda>g.
     bindE (add_vertex g airport_B) (\<lambda>g.
     bindE (add_vertex g airport_C) (\<lambda>g.
       remove_vertex g airport_C)))) = Inr g \<and>
     HashMap_contains (vertices_map g) airport_A = Inr True \<and>
     HashMap_contains (vertices_map g) airport_B = Inr True \<and>
     edges_from g airport_A = Inr (Array_init 0 None) \<and>
     edges_from g airport_B = Inr (Array_init 0 None) \<and>
     Dijkstra_init ha hc g = Inl AttributeError"
proof -
  note p = two_airports_props [of ha]
  have "edges_from (two_airports ha :: (Airport, 'ed) Graph) airport_A = Inr (Array_init 0 None)"
    "edges_from (two_airports ha :: (Airport, 'ed) Graph) airport_B = Inr (Array_init 0 None)"
    by (simp_all add: edges_from_inv p(1) p(2)) (simp_all add: two_airports_def Array_init_def)
  then show ?thesis
    apply -
    apply (rule exI [of _ "two_airports ha"])
    apply (simp add: two_airports_built contains_inv p(1) p(2) Dijkstra_init_stale_count [OF p(1) p(3)])
    done
qed
end
